theory Spec2Isabelle
  imports Main "HOL-Library.Sublist"
begin

section \<open>JSDev: a shallow embedding of jsdev.c\<close>

text \<open>
  The program reads a JavaScript text from stdin one character at a time and copies it to
  stdout, replacing the comments whose first word is a declared command by executable
  code. The C code keeps its scanning state in statics (\<^verbatim>\<open>cr\<close>, \<^verbatim>\<open>line_nr\<close>,
  \<^verbatim>\<open>preview\<close>) and in the two streams; here they are the fields of one record that
  every function takes and returns. A C \<^verbatim>\<open>int\<close> holding a character or \<^verbatim>\<open>EOF\<close> is an
  \<^typ>\<open>int\<close>; the bytes of the streams are \<^typ>\<open>char\<close>s. The two C \<^verbatim>\<open>int\<close>s that
  count, \<^verbatim>\<open>line_nr\<close> and \<^verbatim>\<open>paren\<close>, are \<^typ>\<open>int\<close>s kept within 32 bits: a step beyond
  \<^verbatim>\<open>INT_MAX\<close> or \<^verbatim>\<open>INT_MIN\<close> wraps around, as \<open>int32\<close> writes it out.
  Writing to stdout never fails here, so the \<^verbatim>\<open>write error.\<close> exits of \<^verbatim>\<open>emit\<close> and
  \<^verbatim>\<open>emits\<close> have no counterpart.
\<close>

subsection \<open>State, characters and diagnostics\<close>

record state =
  stdin :: "char list"
  stdout :: "char list"
  preview :: int
  cr :: bool
  line_nr :: int

abbreviation ch :: "char \<Rightarrow> int" where
  "ch x \<equiv> of_char x"

definition EOF :: int where
  "EOF = - 1"

definition MAX_CMD_LENGTH :: nat where
  "MAX_CMD_LENGTH = 80"

definition MAX_NR_CMDS :: nat where
  "MAX_NR_CMDS = 100"

definition int32 :: "int \<Rightarrow> int" where
  "int32 n = (n + 2147483648) mod 4294967296 - 2147483648"

text \<open>
  \<^verbatim>\<open>error\<close> writes \<^verbatim>\<open>JSDev: \<close>, then the line number and a period when \<^verbatim>\<open>line_nr\<close> is
  not zero and the words \<^verbatim>\<open>bad command line\<close> otherwise, then the message, and exits
  with status 1. The exit is the left summand of a result, which carries the state at the
  exit as well, so that what had been written to stdout by then can be read off.
  \<open>Table_overrun\<close> is no message of the program: it marks the run in which \<^verbatim>\<open>main\<close>
  writes behind the end of its tables, where C leaves the behaviour undefined.
\<close>

datatype diagnostic = At_line int string | Bad_command_line string | Table_overrun

type_synonym 'a result = "(diagnostic \<times> state) + 'a"

definition error :: "state \<Rightarrow> string \<Rightarrow> diagnostic \<times> state" where
  "error s message =
     (if line_nr s \<noteq> 0 then (At_line (line_nr s) message, s)
      else (Bad_command_line message, s))"

definition is_alphanum :: "int \<Rightarrow> bool" where
  "is_alphanum c \<longleftrightarrow>
     (c \<ge> ch CHR ''a'' \<and> c \<le> ch CHR ''z'') \<or>
     (c \<ge> ch CHR ''0'' \<and> c \<le> ch CHR ''9'') \<or>
     (c \<ge> ch CHR ''A'' \<and> c \<le> ch CHR ''Z'') \<or>
     c = ch CHR ''_'' \<or> c = ch CHR ''$'' \<or> c = ch CHR ''.''"

subsection \<open>Character input and output\<close>

definition emit :: "int \<Rightarrow> state \<Rightarrow> state" where
  "emit c s = (if c > 0 then s\<lparr>stdout := stdout s @ [char_of c]\<rparr> else s)"

definition emits :: "string \<Rightarrow> state \<Rightarrow> state" where
  "emits str s = s\<lparr>stdout := stdout s @ str\<rparr>"

definition fgetc :: "state \<Rightarrow> int \<times> state" where
  "fgetc s =
     (case stdin s of
        [] \<Rightarrow> (EOF, s)
      | x # xs \<Rightarrow> (ch x, s\<lparr>stdin := xs\<rparr>))"

definition peek :: "state \<Rightarrow> int \<times> state" where
  "peek s =
     (if preview s \<noteq> 0 then (preview s, s)
      else (let (c, s1) = fgetc s in (c, s1\<lparr>preview := c\<rparr>)))"

definition get :: "bool \<Rightarrow> state \<Rightarrow> int \<times> state" where
  "get echo s =
     (let (c, s1) = (if preview s \<noteq> 0 then (preview s, s\<lparr>preview := 0\<rparr>) else fgetc s) in
      if c \<le> 0 then (EOF, s1)
      else
        (let s2 =
           (if c = ch (CHR 0x0D) then s1\<lparr>cr := True, line_nr := int32 (line_nr s1 + 1)\<rparr>
            else (if c = ch (CHR 0x0A) \<and> \<not> cr s1 then s1\<lparr>line_nr := int32 (line_nr s1 + 1)\<rparr>
                  else s1)\<lparr>cr := False\<rparr>)
         in (c, if echo then emit c s2 else s2)))"

definition unget :: "int \<Rightarrow> state \<Rightarrow> state" where
  "unget c s = s\<lparr>preview := c\<rparr>"

text \<open>
  The C conditions \<^verbatim>\<open>in_comment && c == '*' && peek() == '/'\<close> and
  \<^verbatim>\<open>peek() == '/' || peek() == '*'\<close> call \<^verbatim>\<open>peek\<close> only as far as the short-circuit
  evaluation gets; the second \<^verbatim>\<open>peek\<close> of the disjunction reads a new character when
  the first one read a NUL.
\<close>

definition star_slash :: "bool \<Rightarrow> int \<Rightarrow> state \<Rightarrow> bool \<times> state" where
  "star_slash guard c s =
     (if guard \<and> c = ch CHR ''*'' then (let (p, s1) = peek s in (p = ch CHR ''/'', s1))
      else (False, s))"

definition peek_slash_or_star :: "state \<Rightarrow> bool \<times> state" where
  "peek_slash_or_star s =
     (let (p, s1) = peek s in
      if p = ch CHR ''/'' then (True, s1)
      else (let (q, s2) = peek s1 in (q = ch CHR ''*'', s2)))"

text \<open>
  A \<^verbatim>\<open>for (;;)\<close> loop is a recursive function over the variables that the loop changes.
  Its body is a function of its own that either leaves the loop, by \<^verbatim>\<open>return\<close>,
  \<^verbatim>\<open>break\<close> or \<^verbatim>\<open>error\<close>, or hands the changed variables to the next round.
\<close>

datatype ('r, 'v) flow = Exit 'r | Continue 'v

text \<open>
  Every loop of the scanner ends because the input gets shorter: a \<^verbatim>\<open>get\<close> that does
  not report \<^verbatim>\<open>EOF\<close> takes a character from the preview slot or from stdin.
\<close>

definition remaining :: "state \<Rightarrow> nat" where
  "remaining s = 2 * length (stdin s) + (if preview s > 0 then 1 else 0)"

lemma emit_fields [simp]:
  "stdin (emit c s) = stdin s" "preview (emit c s) = preview s"
  "cr (emit c s) = cr s" "line_nr (emit c s) = line_nr s"
  by (simp_all add: emit_def)

lemma emits_fields [simp]:
  "stdin (emits str s) = stdin s" "preview (emits str s) = preview s"
  "cr (emits str s) = cr s" "line_nr (emits str s) = line_nr s"
  "stdout (emits str s) = stdout s @ str"
  by (simp_all add: emits_def)

lemma remaining_fgetc: "remaining (snd (fgetc s)) \<le> remaining s"
  by (simp add: fgetc_def remaining_def split: list.split)

lemma remaining_peek: "remaining (snd (peek s)) \<le> remaining s"
  by (simp add: peek_def fgetc_def remaining_def EOF_def split: list.split)

lemma remaining_emit [simp]: "remaining (emit c s) = remaining s"
  by (simp add: remaining_def)

lemma remaining_emits [simp]: "remaining (emits str s) = remaining s"
  by (simp add: remaining_def)

lemma remaining_get: "remaining (snd (get echo s)) \<le> remaining s"
  by (simp add: get_def fgetc_def remaining_def Let_def EOF_def split: list.split)

lemma remaining_get_less:
  "fst (get echo s) \<noteq> EOF \<Longrightarrow> remaining (snd (get echo s)) < remaining s"
  by (auto simp add: get_def fgetc_def remaining_def Let_def EOF_def split: list.split if_splits)

lemma remaining_star_slash: "remaining (snd (star_slash guard c s)) \<le> remaining s"
  using remaining_peek [of s] by (simp add: star_slash_def split_beta)

lemma remaining_peek_slash_or_star: "remaining (snd (peek_slash_or_star s)) \<le> remaining s"
  using remaining_peek [of s] remaining_peek [of "snd (peek s)"]
  by (simp add: peek_slash_or_star_def split_beta)

lemma remaining_getD:
  "get echo s = (c, s1) \<Longrightarrow>
     remaining s1 \<le> remaining s \<and> (c \<noteq> EOF \<longrightarrow> remaining s1 < remaining s)"
  using remaining_get [of echo s] remaining_get_less [of echo s] by simp

lemma remaining_peekD: "peek s = (c, s1) \<Longrightarrow> remaining s1 \<le> remaining s"
  using remaining_peek [of s] by simp

lemma remaining_star_slashD:
  "star_slash guard c s = (hit, s1) \<Longrightarrow> remaining s1 \<le> remaining s"
  using remaining_star_slash [of guard c s] by simp

lemma remaining_peek_slash_or_starD:
  "peek_slash_or_star s = (hit, s1) \<Longrightarrow> remaining s1 \<le> remaining s"
  using remaining_peek_slash_or_star [of s] by simp

subsection \<open>String literals\<close>

text \<open>
  \<^verbatim>\<open>string\<close> is entered after the opening quote has been read; \<open>was\<close> is the line
  on which the literal began. The character codes \<open>0x27\<close>, \<open>0x22\<close>, \<open>0x60\<close>,
  \<open>0x5C\<close>, \<open>0x0A\<close> and \<open>0x0D\<close> are the single quote, the double quote, the
  backtick, the backslash, the line feed and the carriage return.
\<close>

definition string_body :: "int \<Rightarrow> bool \<Rightarrow> int \<Rightarrow> state \<Rightarrow> (state result, state) flow" where
  "string_body quote in_comment was s =
     (let (c, s1) = get True s in
      if c = quote then Exit (Inr s1)
      else
        (let (c, s2) = (if c = ch (CHR 0x5C) then get True s1 else (c, s1));
             (hit, s3) = star_slash in_comment c s2
         in if hit then Exit (Inl (error s3 ''unexpected close comment in string.''))
            else if c = EOF then
              Exit (Inl (error (s3\<lparr>line_nr := was\<rparr>) ''unterminated string literal.''))
            else Continue s3))"

lemma string_body_less:
  "string_body quote in_comment was s = Continue s' \<Longrightarrow> remaining s' < remaining s"
  by (auto simp add: string_body_def Let_def split: prod.splits if_splits
      dest!: remaining_getD remaining_star_slashD)

function string_loop :: "int \<Rightarrow> bool \<Rightarrow> int \<Rightarrow> state \<Rightarrow> state result" where
  "string_loop quote in_comment was s =
     (case string_body quote in_comment was s of
        Exit r \<Rightarrow> r
      | Continue s' \<Rightarrow> string_loop quote in_comment was s')"
  by pat_completeness auto
termination
  by (relation "measure (\<lambda>(quote, in_comment, was, s). remaining s)")
    (simp_all add: string_body_less)

declare string_loop.simps [simp del]

definition string :: "int \<Rightarrow> bool \<Rightarrow> state \<Rightarrow> state result" where
  "string quote in_comment s = string_loop quote in_comment (line_nr s) s"

lemma string_body_le:
  "string_body quote in_comment was s = Exit (Inr s') \<Longrightarrow> remaining s' \<le> remaining s"
  by (auto simp add: string_body_def Let_def split: prod.splits if_splits
      dest!: remaining_getD remaining_star_slashD)

lemma remaining_string_loop:
  "string_loop quote in_comment was s = Inr s' \<Longrightarrow> remaining s' \<le> remaining s"
proof (induction quote in_comment was s rule: string_loop.induct)
  case (1 quote in_comment was s)
  show ?case
  proof (cases "string_body quote in_comment was s")
    case (Exit r)
    then show ?thesis
      using "1.prems" string_body_le [of quote in_comment was s s']
      by (simp add: string_loop.simps [of quote in_comment was s])
  next
    case (Continue s1)
    then have "remaining s' \<le> remaining s1"
      using "1.prems" "1.IH" by (simp add: string_loop.simps [of quote in_comment was s])
    then show ?thesis
      using string_body_less [OF Continue] by simp
  qed
qed

lemma remaining_string:
  "string quote in_comment s = Inr s' \<Longrightarrow> remaining s' \<le> remaining s"
  unfolding string_def by (rule remaining_string_loop)

subsection \<open>Regular expression literals\<close>

definition pre_regexp :: "int \<Rightarrow> bool" where
  "pre_regexp left \<longleftrightarrow>
     left = ch CHR ''('' \<or> left = ch CHR '','' \<or> left = ch CHR ''='' \<or>
     left = ch CHR '':'' \<or> left = ch CHR ''['' \<or> left = ch CHR ''!'' \<or>
     left = ch CHR ''&'' \<or> left = ch CHR ''|'' \<or> left = ch CHR ''?'' \<or>
     left = ch CHR ''{'' \<or> left = ch CHR ''}'' \<or> left = ch CHR '';''"

text \<open>The inner loop of \<^verbatim>\<open>regexp\<close>, which reads a character class up to its \<^verbatim>\<open>]\<close>.\<close>

definition regexp_set_body :: "bool \<Rightarrow> state \<Rightarrow> (state result, state) flow" where
  "regexp_set_body in_comment s =
     (let (c, s1) = get True s in
      if c = ch CHR '']'' then Exit (Inr s1)
      else
        (let (c, s2) = (if c = ch (CHR 0x5C) then get True s1 else (c, s1));
             (hit, s3) = star_slash in_comment c s2
         in if hit then Exit (Inl (error s3 ''unexpected close comment in regexp.''))
            else if c = EOF then
              Exit (Inl (error s3 ''unterminated set in Regular Expression literal.''))
            else Continue s3))"

lemma regexp_set_body_less:
  "regexp_set_body in_comment s = Continue s' \<Longrightarrow> remaining s' < remaining s"
  by (auto simp add: regexp_set_body_def Let_def split: prod.splits if_splits
      dest!: remaining_getD remaining_star_slashD)

lemma regexp_set_body_le:
  "regexp_set_body in_comment s = Exit (Inr s') \<Longrightarrow> remaining s' < remaining s"
  by (auto simp add: regexp_set_body_def Let_def EOF_def split: prod.splits if_splits
      dest!: remaining_getD remaining_star_slashD)

function regexp_set :: "bool \<Rightarrow> state \<Rightarrow> state result" where
  "regexp_set in_comment s =
     (case regexp_set_body in_comment s of
        Exit r \<Rightarrow> r
      | Continue s' \<Rightarrow> regexp_set in_comment s')"
  by pat_completeness auto
termination
  by (relation "measure (\<lambda>(in_comment, s). remaining s)")
    (simp_all add: regexp_set_body_less)

declare regexp_set.simps [simp del]

lemma remaining_regexp_set:
  "regexp_set in_comment s = Inr s' \<Longrightarrow> remaining s' < remaining s"
proof (induction in_comment s rule: regexp_set.induct)
  case (1 in_comment s)
  show ?case
  proof (cases "regexp_set_body in_comment s")
    case (Exit r)
    then show ?thesis
      using "1.prems" regexp_set_body_le [of in_comment s s']
      by (simp add: regexp_set.simps [of in_comment s])
  next
    case (Continue s1)
    then have "remaining s' < remaining s1"
      using "1.prems" "1.IH" by (simp add: regexp_set.simps [of in_comment s])
    then show ?thesis
      using regexp_set_body_less [OF Continue] by simp
  qed
qed

text \<open>
  \<open>regexp_tail\<close> is the pair of checks that ends each round of the outer loop. After a
  character class \<^verbatim>\<open>c\<close> is the \<^verbatim>\<open>]\<close> that closed it.
\<close>

definition regexp_tail :: "bool \<Rightarrow> int \<Rightarrow> int \<Rightarrow> state \<Rightarrow> (state result, state) flow" where
  "regexp_tail in_comment was c s =
     (let (hit, s1) = star_slash in_comment c s in
      if hit then Exit (Inl (error s1 ''unexpected comment.''))
      else if c = EOF then
        Exit (Inl (error (s1\<lparr>line_nr := was\<rparr>) ''unterminated regexp literal.''))
      else Continue s1)"

definition regexp_body :: "bool \<Rightarrow> int \<Rightarrow> state \<Rightarrow> (state result, state) flow" where
  "regexp_body in_comment was s =
     (let (c, s1) = get True s in
      if c = ch CHR ''['' then
        (case regexp_set in_comment s1 of
           Inl e \<Rightarrow> Exit (Inl e)
         | Inr s2 \<Rightarrow> regexp_tail in_comment was (ch CHR '']'') s2)
      else if c = ch CHR ''/'' then
        (let (hit, s2) = (if in_comment then peek_slash_or_star s1 else (False, s1)) in
         if hit then Exit (Inl (error s2 ''unexpected comment.'')) else Exit (Inr s2))
      else if c = ch (CHR 0x5C) then
        (let (c, s2) = get True s1 in regexp_tail in_comment was c s2)
      else regexp_tail in_comment was c s1)"

lemma regexp_tail_le:
  "regexp_tail in_comment was c s = Continue s' \<Longrightarrow> remaining s' \<le> remaining s \<and> c \<noteq> EOF"
  by (auto simp add: regexp_tail_def split: prod.splits if_splits dest!: remaining_star_slashD)

lemma regexp_tail_no_return [simp]: "regexp_tail in_comment was c s \<noteq> Exit (Inr s')"
  by (simp add: regexp_tail_def split: prod.splits)

lemma regexp_body_less:
  "regexp_body in_comment was s = Continue s' \<Longrightarrow> remaining s' < remaining s"
  by (auto simp add: regexp_body_def Let_def EOF_def
      split: prod.splits if_splits sum.splits
      dest!: remaining_getD regexp_tail_le remaining_regexp_set)

lemma regexp_body_le:
  "regexp_body in_comment was s = Exit (Inr s') \<Longrightarrow> remaining s' \<le> remaining s"
  by (auto simp add: regexp_body_def Let_def
      split: prod.splits if_splits sum.splits
      dest!: remaining_getD remaining_peek_slash_or_starD)

function regexp_loop :: "bool \<Rightarrow> int \<Rightarrow> state \<Rightarrow> state result" where
  "regexp_loop in_comment was s =
     (case regexp_body in_comment was s of
        Exit r \<Rightarrow> r
      | Continue s' \<Rightarrow> regexp_loop in_comment was s')"
  by pat_completeness auto
termination
  by (relation "measure (\<lambda>(in_comment, was, s). remaining s)")
    (simp_all add: regexp_body_less)

declare regexp_loop.simps [simp del]

definition regexp :: "bool \<Rightarrow> state \<Rightarrow> state result" where
  "regexp in_comment s = regexp_loop in_comment (line_nr s) s"

lemma remaining_regexp_loop:
  "regexp_loop in_comment was s = Inr s' \<Longrightarrow> remaining s' \<le> remaining s"
proof (induction in_comment was s rule: regexp_loop.induct)
  case (1 in_comment was s)
  show ?case
  proof (cases "regexp_body in_comment was s")
    case (Exit r)
    then show ?thesis
      using "1.prems" regexp_body_le [of in_comment was s s']
      by (simp add: regexp_loop.simps [of in_comment was s])
  next
    case (Continue s1)
    then have "remaining s' \<le> remaining s1"
      using "1.prems" "1.IH" by (simp add: regexp_loop.simps [of in_comment was s])
    then show ?thesis
      using regexp_body_less [OF Continue] by simp
  qed
qed

lemma remaining_regexp:
  "regexp in_comment s = Inr s' \<Longrightarrow> remaining s' \<le> remaining s"
  unfolding regexp_def by (rule remaining_regexp_loop)

subsection \<open>Conditions and stuff\<close>

text \<open>
  Both loops end with \<^verbatim>\<open>if (c > ' ') { left = c; }\<close>. In \<^verbatim>\<open>condition\<close> the C
  variable \<^verbatim>\<open>left\<close> starts uninitialised; \<^verbatim>\<open>expand\<close> calls \<^verbatim>\<open>condition\<close> only when
  the next character is an opening parenthesis, which is stored in \<^verbatim>\<open>left\<close> before
  \<^verbatim>\<open>left\<close> is read. The model starts it at 0.
\<close>

definition is_quote :: "int \<Rightarrow> bool" where
  "is_quote c \<longleftrightarrow> c = ch (CHR 0x27) \<or> c = ch (CHR 0x22) \<or> c = ch (CHR 0x60)"

definition note_left :: "int \<Rightarrow> int \<Rightarrow> int" where
  "note_left c left = (if c > ch CHR '' '' then c else left)"

definition condition_body ::
  "int \<times> int \<times> state \<Rightarrow> (state result, int \<times> int \<times> state) flow" where
  "condition_body v =
     (let (left, paren, s) = v; (c, s1) = get True s in
      if c = ch CHR ''('' \<or> c = ch CHR ''{'' \<or> c = ch CHR ''['' then
        Continue (note_left c left, int32 (paren + 1), s1)
      else if c = ch CHR '')'' \<or> c = ch CHR ''}'' \<or> c = ch CHR '']'' then
        (if int32 (paren - 1) = 0 then Exit (Inr s1)
         else Continue (note_left c left, int32 (paren - 1), s1))
      else if c = EOF then Exit (Inl (error s1 ''Unterminated condition.''))
      else if is_quote c then
        (case string c True s1 of
           Inl e \<Rightarrow> Exit (Inl e)
         | Inr s2 \<Rightarrow> Continue (note_left c left, paren, s2))
      else if c = ch CHR ''/'' then
        (let (hit, s2) = peek_slash_or_star s1 in
         if hit then Exit (Inl (error s2 ''unexpected comment.''))
         else
           (case (if pre_regexp left then regexp True s2 else Inr s2) of
              Inl e \<Rightarrow> Exit (Inl e)
            | Inr s3 \<Rightarrow> Continue (note_left c left, paren, s3)))
      else
        (let (hit, s2) = star_slash True c s1 in
         if hit then Exit (Inl (error s2 ''unclosed condition.''))
         else Continue (note_left c left, paren, s2)))"

lemma condition_body_less:
  "condition_body (left, paren, s) = Continue (left', paren', s') \<Longrightarrow>
     remaining s' < remaining s"
  by (auto simp add: condition_body_def Let_def EOF_def
      split: prod.splits if_splits sum.splits
      dest!: remaining_getD remaining_star_slashD remaining_peek_slash_or_starD
        remaining_string remaining_regexp)

lemma condition_body_le:
  "condition_body (left, paren, s) = Exit (Inr s') \<Longrightarrow> remaining s' \<le> remaining s"
  by (auto simp add: condition_body_def Let_def
      split: prod.splits if_splits sum.splits dest!: remaining_getD)

function condition_loop :: "int \<times> int \<times> state \<Rightarrow> state result" where
  "condition_loop v =
     (case condition_body v of
        Exit r \<Rightarrow> r
      | Continue v' \<Rightarrow> condition_loop v')"
  by pat_completeness auto
termination
  by (relation "measure (\<lambda>(left, paren, s). remaining s)")
    (auto simp add: condition_body_less)

declare condition_loop.simps [simp del]

definition condition :: "state \<Rightarrow> state result" where
  "condition s = condition_loop (0, 0, s)"

lemma remaining_condition_loop:
  "condition_loop v = Inr s' \<Longrightarrow> remaining s' \<le> remaining (snd (snd v))"
proof (induction v rule: condition_loop.induct)
  case (1 v)
  obtain left paren s where v: "v = (left, paren, s)" by (cases v)
  show ?case
  proof (cases "condition_body v")
    case (Exit r)
    then show ?thesis
      using "1.prems" condition_body_le [of left paren s s']
      by (simp add: condition_loop.simps [of "(left, paren, s)"] v)
  next
    case (Continue v1)
    obtain left1 paren1 s1 where v1: "v1 = (left1, paren1, s1)" by (cases v1)
    have "remaining s' \<le> remaining s1"
      using "1.prems" "1.IH" [OF Continue] Continue
      by (simp add: condition_loop.simps [of "(left, paren, s)"] v v1)
    then show ?thesis
      using condition_body_less [of left paren s left1 paren1 s1] Continue by (simp add: v v1)
  qed
qed

lemma remaining_condition:
  "condition s = Inr s' \<Longrightarrow> remaining s' \<le> remaining s"
  unfolding condition_def using remaining_condition_loop [of "(0, 0, s)" s'] by simp

text \<open>
  \<open>stuff_stars\<close> is the \<^verbatim>\<open>while (peek() == '*')\<close> loop at the head of each round of
  \<^verbatim>\<open>stuff\<close>. It yields \<open>True\<close> when it has read the \<^verbatim>\<open>*/\<close> that ends the comment,
  where \<^verbatim>\<open>stuff\<close> returns.
\<close>

lemma peek_preview: "peek s = (p, s1) \<Longrightarrow> p \<noteq> 0 \<Longrightarrow> preview s1 = p"
  by (auto simp add: peek_def fgetc_def split: if_splits list.splits)

lemma get_preview_less:
  "preview s > 0 \<Longrightarrow> remaining (snd (get echo s)) < remaining s"
  by (simp add: get_def remaining_def Let_def)

function stuff_stars :: "state \<Rightarrow> bool \<times> state" where
  "stuff_stars s =
     (let (p, s1) = peek s in
      if p = ch CHR ''*'' then
        (let (c, s2) = get False s1; (q, s3) = peek s2 in
         if q = ch CHR ''/'' then (True, snd (get False s3))
         else stuff_stars (emit (ch CHR ''*'') s3))
      else (False, s1))"
  by pat_completeness auto
termination
proof (relation "measure remaining", goal_cases)
  case 1
  show ?case by simp
next
  case (2 s x p s1 y c s2 z q s3)
  have p: "peek s = (p, s1)" and g: "get False s1 = (c, s2)" and q: "peek s2 = (q, s3)"
    and star: "p = ch CHR ''*''"
    using 2 by simp_all
  have "preview s1 > 0"
    using peek_preview [OF p] star by simp
  then have "remaining s2 < remaining s1"
    using get_preview_less [of s1 False] by (simp add: g)
  then show ?case
    using remaining_peekD [OF p] remaining_peekD [OF q] by simp
qed

declare stuff_stars.simps [simp del]

lemma remaining_stuff_stars: "remaining (snd (stuff_stars s)) \<le> remaining s"
proof (induction s rule: stuff_stars.induct)
  case (1 s)
  obtain p s1 where p: "peek s = (p, s1)" by (cases "peek s")
  obtain c s2 where g: "get False s1 = (c, s2)" by (cases "get False s1")
  obtain q s3 where q: "peek s2 = (q, s3)" by (cases "peek s2")
  have le: "remaining s3 \<le> remaining s"
    using remaining_peekD [OF p] remaining_getD [OF g] remaining_peekD [OF q] by simp
  show ?case
  proof (cases "p = ch CHR ''*'' \<and> q \<noteq> ch CHR ''/''")
    case True
    then have "remaining (snd (stuff_stars (emit (ch CHR ''*'') s3))) \<le> remaining s3"
      using "1.IH" [OF refl p [symmetric] _ refl g [symmetric] refl q [symmetric]] by simp
    then show ?thesis
      using True le by (simp add: stuff_stars.simps [of s] p g q)
  next
    case False
    then show ?thesis
      using le remaining_peekD [OF p] remaining_get [of False s3]
      by (auto simp add: stuff_stars.simps [of s] p g q)
  qed
qed

definition stuff_body :: "int \<times> state \<Rightarrow> (state result, int \<times> state) flow" where
  "stuff_body v =
     (let (left, s) = v; (closed, s1) = stuff_stars s in
      if closed then Exit (Inr s1)
      else
        (let (c, s2) = get True s1 in
         if c = EOF then Exit (Inl (error s2 ''Unterminated stuff.''))
         else if is_quote c then
           (case string c True s2 of
              Inl e \<Rightarrow> Exit (Inl e)
            | Inr s3 \<Rightarrow> Continue (note_left c left, s3))
         else if c = ch CHR ''/'' then
           (let (hit, s3) = peek_slash_or_star s2 in
            if hit then Exit (Inl (error s3 ''unexpected comment.''))
            else
              (case (if pre_regexp left then regexp True s3 else Inr s3) of
                 Inl e \<Rightarrow> Exit (Inl e)
               | Inr s4 \<Rightarrow> Continue (note_left c left, s4)))
         else Continue (note_left c left, s2)))"

lemma remaining_stuff_starsD:
  "stuff_stars s = (closed, s1) \<Longrightarrow> remaining s1 \<le> remaining s"
  using remaining_stuff_stars [of s] by simp

lemma stuff_body_less:
  "stuff_body (left, s) = Continue (left', s') \<Longrightarrow> remaining s' < remaining s"
  by (auto simp add: stuff_body_def Let_def
      split: prod.splits if_splits sum.splits
      dest!: remaining_getD remaining_stuff_starsD remaining_peek_slash_or_starD
        remaining_string remaining_regexp)

lemma stuff_body_le:
  "stuff_body (left, s) = Exit (Inr s') \<Longrightarrow> remaining s' \<le> remaining s"
  by (auto simp add: stuff_body_def Let_def
      split: prod.splits if_splits sum.splits dest!: remaining_stuff_starsD)

function stuff_loop :: "int \<times> state \<Rightarrow> state result" where
  "stuff_loop v =
     (case stuff_body v of
        Exit r \<Rightarrow> r
      | Continue v' \<Rightarrow> stuff_loop v')"
  by pat_completeness auto
termination
  by (relation "measure (\<lambda>(left, s). remaining s)")
    (auto simp add: stuff_body_less)

declare stuff_loop.simps [simp del]

definition stuff :: "state \<Rightarrow> state result" where
  "stuff s = stuff_loop (ch CHR ''{'', s)"

lemma remaining_stuff_loop:
  "stuff_loop v = Inr s' \<Longrightarrow> remaining s' \<le> remaining (snd v)"
proof (induction v rule: stuff_loop.induct)
  case (1 v)
  obtain left s where v: "v = (left, s)" by (cases v)
  show ?case
  proof (cases "stuff_body v")
    case (Exit r)
    then show ?thesis
      using "1.prems" stuff_body_le [of left s s']
      by (simp add: stuff_loop.simps [of "(left, s)"] v)
  next
    case (Continue v1)
    obtain left1 s1 where v1: "v1 = (left1, s1)" by (cases v1)
    have "remaining s' \<le> remaining s1"
      using "1.prems" "1.IH" [OF Continue] Continue
      by (simp add: stuff_loop.simps [of "(left, s)"] v v1)
    then show ?thesis
      using stuff_body_less [of left s left1 s1] Continue by (simp add: v v1)
  qed
qed

lemma remaining_stuff: "stuff s = Inr s' \<Longrightarrow> remaining s' \<le> remaining s"
  unfolding stuff_def using remaining_stuff_loop [of "(ch CHR ''{'', s)" s'] by simp

subsection \<open>The command table and the expansion of a pattern\<close>

text \<open>
  The arrays \<^verbatim>\<open>cmds\<close> and \<^verbatim>\<open>commands\<close> are one list of pairs, \<^verbatim>\<open>nr_cmds\<close> its
  length. An entry without a \<^verbatim>\<open>:<command>\<close> has the empty string as its second
  component, as \<^verbatim>\<open>commands[nr_cmds][0] = 0\<close> makes it. The C arrays have room for
  \<^verbatim>\<open>MAX_NR_CMDS\<close> entries and \<^verbatim>\<open>main\<close> does not count them: the first character
  that it stores for one more entry is written behind the end of \<^verbatim>\<open>cmds\<close>. \<open>add_cmd\<close>
  ends the run there with \<open>Table_overrun\<close>, so the list never has more than
  \<^verbatim>\<open>MAX_NR_CMDS\<close> entries.
\<close>

type_synonym table = "(string \<times> string) list"

function match_loop :: "table \<Rightarrow> string \<Rightarrow> nat \<Rightarrow> int" where
  "match_loop tbl cmd cmd_nr =
     (if cmd_nr < length tbl then
        (if cmd = fst (tbl ! cmd_nr) then int cmd_nr
         else match_loop tbl cmd (cmd_nr + 1))
      else EOF)"
  by pat_completeness auto
termination
  by (relation "measure (\<lambda>(tbl, cmd, cmd_nr). length tbl - cmd_nr)") simp_all

declare match_loop.simps [simp del]

definition match :: "table \<Rightarrow> string \<Rightarrow> int" where
  "match tbl cmd = match_loop tbl cmd 0"

definition expand :: "table \<Rightarrow> int \<Rightarrow> state \<Rightarrow> state result" where
  "expand tbl cmd_nr s =
     (let (c, s1) = peek s in
      case (if c = ch CHR ''('' then condition (emits ''if '' s1) else Inr s1) of
        Inl e \<Rightarrow> Inl e
      | Inr s2 \<Rightarrow>
          (let s3 = emit (ch CHR ''{'') s2;
               command = snd (tbl ! nat cmd_nr)
           in case
                (if command \<noteq> [] then
                   (case stuff (emit (ch CHR ''('') (emits command s3)) of
                      Inl e \<Rightarrow> Inl e
                    | Inr s4 \<Rightarrow> Inr (emit (ch CHR '')'') s4))
                 else stuff s3)
              of
                Inl e \<Rightarrow> Inl e
              | Inr s5 \<Rightarrow> Inr (emits '';}'' s5)))"

lemma remaining_expand: "expand tbl cmd_nr s = Inr s' \<Longrightarrow> remaining s' \<le> remaining s"
  by (auto simp add: expand_def Let_def
      split: prod.splits if_splits sum.splits
      dest!: remaining_peekD remaining_condition remaining_stuff)

subsection \<open>The main loop\<close>

text \<open>The loop that skips a \<^verbatim>\<open>//\<close> comment, up to the end of the line or of the input.\<close>

function line_comment :: "state \<Rightarrow> state" where
  "line_comment s =
     (let (c, s1) = get True s in
      if c = ch (CHR 0x0A) \<or> c = ch (CHR 0x0D) \<or> c = EOF then s1
      else line_comment s1)"
  by pat_completeness auto
termination
proof (relation "measure remaining", goal_cases)
  case 1
  show ?case by simp
next
  case (2 s x c s1)
  then have "get True s = (c, s1)" and "c \<noteq> EOF"
    by simp_all
  then show ?case
    using remaining_getD [of True s c s1] by simp
qed

declare line_comment.simps [simp del]

lemma remaining_line_comment: "remaining (line_comment s) \<le> remaining s"
proof (induction s rule: line_comment.induct)
  case (1 s)
  obtain c s1 where g: "get True s = (c, s1)" by (cases "get True s")
  show ?case
  proof (cases "c = ch (CHR 0x0A) \<or> c = ch (CHR 0x0D) \<or> c = EOF")
    case True
    then show ?thesis
      using remaining_getD [OF g] by (auto simp add: line_comment.simps [of s] g)
  next
    case False
    then have "remaining (line_comment s1) \<le> remaining s1"
      using "1.IH" [OF refl g [symmetric]] by simp
    then show ?thesis
      using False remaining_getD [OF g] by (simp add: line_comment.simps [of s] g)
  qed
qed

text \<open>
  The loop that reads the command of a \<^verbatim>\<open>/*\<close> comment into \<^verbatim>\<open>cmd\<close>. The characters
  stored so far are the list \<open>cmd\<close>, and \<open>i\<close> is their number; \<^verbatim>\<open>cmd[i] = 0\<close> after
  the loop makes them the string that \<^verbatim>\<open>match\<close> and \<^verbatim>\<open>emits\<close> see.
\<close>

function cmd_loop :: "nat \<Rightarrow> string \<Rightarrow> int \<Rightarrow> state \<Rightarrow> nat \<times> string \<times> int \<times> state" where
  "cmd_loop i cmd c s =
     (if i < MAX_CMD_LENGTH then
        (let (c', s1) = get False s in
         if \<not> is_alphanum c' then (i, cmd, c', s1)
         else cmd_loop (i + 1) (cmd @ [char_of c']) c' s1)
      else (i, cmd, c, s))"
  by pat_completeness auto
termination
  by (relation "measure (\<lambda>(i, cmd, c, s). MAX_CMD_LENGTH - i)") simp_all

declare cmd_loop.simps [simp del]

text \<open>The loop that echoes a comment whose command did not match.\<close>

definition comment_body :: "int \<times> state \<Rightarrow> (state result, int \<times> state) flow" where
  "comment_body v =
     (let (c, s) = v in
      if c = EOF then Exit (Inl (error s ''unterminated comment.''))
      else if c = ch CHR ''/'' then
        (let (c', s1) = get True s in
         if c' = ch CHR ''*'' then Exit (Inl (error s1 ''nested comment.''))
         else Continue (c', s1))
      else if c = ch CHR ''*'' then
        (let (c', s1) = get True s in
         if c' = ch CHR ''/'' then Exit (Inr s1)
         else Continue (c', s1))
      else Continue (get True s))"

definition comment_measure :: "int \<times> state \<Rightarrow> nat" where
  "comment_measure v = 2 * remaining (snd v) + (if fst v = EOF then 0 else 1)"

lemma comment_body_less:
  "comment_body v = Continue v' \<Longrightarrow> comment_measure v' < comment_measure v"
  by (cases v; cases v')
    (auto simp add: comment_body_def comment_measure_def Let_def
      split: prod.splits if_splits dest!: remaining_getD)

function comment_loop :: "int \<times> state \<Rightarrow> state result" where
  "comment_loop v =
     (case comment_body v of
        Exit r \<Rightarrow> r
      | Continue v' \<Rightarrow> comment_loop v')"
  by pat_completeness auto
termination
  by (relation "measure comment_measure") (simp_all add: comment_body_less)

declare comment_loop.simps [simp del]

lemma comment_body_le:
  "comment_body (c, s) = Exit (Inr s') \<Longrightarrow> remaining s' \<le> remaining s"
  by (auto simp add: comment_body_def Let_def split: prod.splits if_splits dest!: remaining_getD)

lemma comment_body_le':
  "comment_body (c, s) = Continue (c', s') \<Longrightarrow> remaining s' \<le> remaining s"
  by (auto simp add: comment_body_def Let_def split: prod.splits if_splits dest!: remaining_getD)

lemma remaining_comment_loop:
  "comment_loop v = Inr s' \<Longrightarrow> remaining s' \<le> remaining (snd v)"
proof (induction v rule: comment_loop.induct)
  case (1 v)
  obtain c s where v: "v = (c, s)" by (cases v)
  show ?case
  proof (cases "comment_body v")
    case (Exit r)
    then show ?thesis
      using "1.prems" comment_body_le [of c s s']
      by (simp add: comment_loop.simps [of "(c, s)"] v)
  next
    case (Continue v1)
    obtain c1 s1 where v1: "v1 = (c1, s1)" by (cases v1)
    have "remaining s' \<le> remaining s1"
      using "1.prems" "1.IH" [OF Continue] Continue
      by (simp add: comment_loop.simps [of "(c, s)"] v v1)
    then show ?thesis
      using comment_body_le' [of c s c1 s1] Continue by (simp add: v v1)
  qed
qed

lemma get_preview [simp]: "preview (snd (get echo s)) = 0"
  by (simp add: get_def fgetc_def Let_def split: list.split)

lemma remaining_unget_get:
  "get echo s = (c, s1) \<Longrightarrow> preview s = 0 \<Longrightarrow>
     remaining (unget c s1) \<le> remaining s \<and> remaining s1 + 1 \<le> remaining s + (if c = EOF then 1 else 0)"
  by (auto simp add: get_def fgetc_def unget_def remaining_def Let_def EOF_def
      split: list.splits if_splits)

lemma remaining_cmd_loop:
  "cmd_loop i cmd c s = (i', cmd', c', s') \<Longrightarrow> preview s = 0 \<Longrightarrow>
     remaining (unget c' s') \<le> (if i < MAX_CMD_LENGTH then remaining s else remaining s + 1)"
proof (induction i cmd c s rule: cmd_loop.induct)
  case (1 i cmd c s)
  show ?case
  proof (cases "i < MAX_CMD_LENGTH")
    case False
    then show ?thesis
      using "1.prems" by (auto simp add: cmd_loop.simps [of i cmd c s] unget_def remaining_def)
  next
    case True
    obtain c1 s1 where g: "get False s = (c1, s1)" by (cases "get False s")
    have p1: "preview s1 = 0" using get_preview [of False s] by (simp add: g)
    show ?thesis
    proof (cases "is_alphanum c1")
      case False
      then show ?thesis
        using "1.prems" True remaining_unget_get [OF g]
        by (simp add: cmd_loop.simps [of i cmd c s] g)
    next
      case alnum: True
      then have ne: "c1 \<noteq> EOF" by (auto simp add: is_alphanum_def EOF_def)
      have "remaining (unget c' s') \<le> remaining s1 + 1"
        using "1.IH" [OF True refl g [symmetric] _ _ p1] "1.prems" True alnum
        by (simp add: cmd_loop.simps [of i cmd c s] g split: if_splits)
      then show ?thesis
        using True remaining_unget_get [OF g] ne "1.prems"(2) by simp
    qed
  qed
qed


text \<open>
  One round of the loop of \<^verbatim>\<open>process\<close>, over its variables \<^verbatim>\<open>c\<close> and \<^verbatim>\<open>left\<close> and the
  state. After a string literal \<^verbatim>\<open>c\<close> is set to 0, which the next round echoes as
  nothing.
\<close>

definition process_body ::
  "table \<Rightarrow> int \<times> int \<times> state \<Rightarrow> (state result, int \<times> int \<times> state) flow" where
  "process_body tbl v =
     (let (c, left, s) = v in
      if c = EOF then Exit (Inr s)
      else if is_quote c then
        (case string c False (emit c s) of
           Inl e \<Rightarrow> Exit (Inl e)
         | Inr s1 \<Rightarrow> Continue (0, left, s1))
      else if c = ch CHR ''/'' then
        (let (p, s1) = peek s in
         if p = ch CHR ''/'' then
           (let s2 = line_comment (emit (ch CHR ''/'') s1);
                (c', s3) = get False s2
            in Continue (c', left, s3))
         else
           (let (p, s2) = peek s1 in
            if p = ch CHR ''*'' then
              (let (star, s3) = get False s2;
                   (i, cmd, c', s4) = cmd_loop 0 [] c s3;
                   s5 = unget c' s4;
                   i = (if i = 0 then - 1 else match tbl cmd)
               in if i \<ge> 0 then
                    (case expand tbl i s5 of
                       Inl e \<Rightarrow> Exit (Inl e)
                     | Inr s6 \<Rightarrow>
                         (let (c'', s7) = get False s6 in Continue (c'', left, s7)))
                  else
                    (case comment_loop (c', emits cmd (emits ''/*'' s5)) of
                       Inl e \<Rightarrow> Exit (Inl e)
                     | Inr s6 \<Rightarrow>
                         (let (c'', s7) = get False s6 in Continue (c'', left, s7))))
            else
              (let s3 = emit (ch CHR ''/'') s2 in
               case (if pre_regexp left then regexp False s3 else Inr s3) of
                 Inl e \<Rightarrow> Exit (Inl e)
               | Inr s4 \<Rightarrow>
                   (let (c', s5) = get False s4 in Continue (c', ch CHR ''/'', s5)))))
      else
        (let s1 = emit c s;
             left' = (if c > ch CHR '' '' then c else left);
             (c', s2) = get False s1
         in Continue (c', left', s2)))"

text \<open>
  The loop of \<^verbatim>\<open>process\<close> ends because each round either shortens the input or
  moves \<^verbatim>\<open>c\<close> down from a character to 0 to \<^verbatim>\<open>EOF\<close>.
\<close>

definition rank :: "int \<Rightarrow> nat" where
  "rank c = (if c = EOF then 0 else if c = 0 then 1 else 2)"

definition process_measure :: "int \<times> int \<times> state \<Rightarrow> nat" where
  "process_measure v = (case v of (c, left, s) \<Rightarrow> 3 * remaining s + rank c)"

lemma final_get:
  "get echo t = (c', s') \<Longrightarrow> remaining t \<le> remaining s \<Longrightarrow> c \<noteq> EOF \<Longrightarrow>
     process_measure (c', left', s') < process_measure (c, left, s)"
  using remaining_getD [of echo t c' s']
  by (cases "c' = EOF") (auto simp add: process_measure_def rank_def)

lemma peek_star_get:
  "peek s = (p, s1) \<Longrightarrow> p = ch CHR ''*'' \<Longrightarrow> get echo s1 = (c, s2) \<Longrightarrow>
     remaining s2 < remaining s \<and> preview s2 = 0"
  using peek_preview [of s p s1] get_preview_less [of s1 echo] remaining_peekD [of s p s1]
    get_preview [of echo s1]
  by simp

lemma process_body_less:
  "process_body tbl v = Continue v' \<Longrightarrow> process_measure v' < process_measure v"
proof -
  assume a: "process_body tbl v = Continue v'"
  obtain c left s where v: "v = (c, left, s)" by (cases v)
  have ne: "c \<noteq> EOF" using a by (auto simp add: process_body_def v)
  show ?thesis
  proof (cases "is_quote c")
    case True
    then show ?thesis
      using a ne
      by (auto simp add: process_body_def v process_measure_def rank_def is_quote_def
          split: sum.splits dest!: remaining_string)
  next
    case nq: False
    show ?thesis
    proof (cases "c = ch CHR ''/''")
      case False
      then show ?thesis
        using a ne nq
        by (auto simp add: process_body_def v Let_def split: prod.splits intro!: final_get)
    next
      case slash: True
      obtain p s1 where p1: "peek s = (p, s1)" by (cases "peek s")
      obtain q s2 where p2: "peek s1 = (q, s2)" by (cases "peek s1")
      have le2: "remaining s2 \<le> remaining s" and le1: "remaining s1 \<le> remaining s"
        using remaining_peekD [OF p1] remaining_peekD [OF p2] by simp_all
      show ?thesis
      proof (cases "p = ch CHR ''/''")
        case True
        then show ?thesis
          using a ne nq slash le1 remaining_line_comment [of "emit (ch CHR ''/'') s1"]
          by (auto simp add: process_body_def v Let_def p1 split: prod.splits intro!: final_get)
      next
        case np: False
        show ?thesis
        proof (cases "q = ch CHR ''*''")
          case False
          then show ?thesis
            using a ne nq slash np le2
            by (auto simp add: process_body_def v Let_def p1 p2
                split: prod.splits sum.splits if_splits
                dest!: remaining_regexp intro!: final_get)
        next
          case True
          obtain st s3 where g3: "get False s2 = (st, s3)" by (cases "get False s2")
          obtain i cmd c' s4 where cl: "cmd_loop 0 [] c s3 = (i, cmd, c', s4)"
            by (cases "cmd_loop 0 [] c s3")
          have "remaining s3 < remaining s1 \<and> preview s3 = 0"
            using peek_star_get [OF p2 True g3] .
          then have le5: "remaining (unget c' s4) \<le> remaining s"
            using remaining_cmd_loop [OF cl] le1 by (simp add: MAX_CMD_LENGTH_def)
          show ?thesis
            using a ne nq slash np True le5 cl
            by (auto simp add: process_body_def v Let_def p1 p2 g3
                split: prod.splits sum.splits if_splits
                dest!: remaining_expand remaining_comment_loop intro!: final_get)
        qed
      qed
    qed
  qed
qed


function process_loop :: "table \<Rightarrow> int \<times> int \<times> state \<Rightarrow> state result" where
  "process_loop tbl v =
     (case process_body tbl v of
        Exit r \<Rightarrow> r
      | Continue v' \<Rightarrow> process_loop tbl v')"
  by pat_completeness auto
termination
  by (relation "measure (\<lambda>(tbl, v). process_measure v)") (simp_all add: process_body_less)

declare process_loop.simps [simp del]

definition process :: "table \<Rightarrow> state \<Rightarrow> state result" where
  "process tbl s =
     (let s1 = s\<lparr>line_nr := 1\<rparr>;
          (c, s2) = get False s1
      in process_loop tbl (c, 0, s2))"

subsection \<open>The command line\<close>

text \<open>
  An argument is a C string: reading it at its length gives the terminating NUL. Both
  loops of \<^verbatim>\<open>main\<close> that copy a name out of an argument are \<open>name_loop\<close>, which reads
  from offset \<open>off\<close>; \<open>j\<close> counts the characters copied into \<open>name\<close>, and \<open>c\<close> is
  the character read last. A \<^verbatim>\<open>char\<close> above 127 may be negative in C; it is no
  letter, 0 or colon either way.
\<close>

definition char_at :: "string \<Rightarrow> nat \<Rightarrow> int" where
  "char_at arg n = (if n < length arg then ch (arg ! n) else 0)"

function name_loop :: "string \<Rightarrow> nat \<Rightarrow> nat \<Rightarrow> string \<Rightarrow> int \<Rightarrow> nat \<times> string \<times> int" where
  "name_loop arg off j name c =
     (if j < MAX_CMD_LENGTH then
        (let c' = char_at arg (off + j) in
         if \<not> is_alphanum c' then (j, name, c')
         else name_loop arg off (j + 1) (name @ [char_of c']) c')
      else (j, name, c))"
  by pat_completeness auto
termination
  by (relation "measure (\<lambda>(arg, off, j, name, c). MAX_CMD_LENGTH - j)") simp_all

declare name_loop.simps [simp del]

definition add_cmd :: "string \<Rightarrow> table \<Rightarrow> state \<Rightarrow> table result" where
  "add_cmd arg tbl s =
     (let (j, cmd, c) = name_loop arg 0 0 [] 0 in
      if j = 0 then Inl (error s arg)
      else if MAX_NR_CMDS \<le> length tbl then Inl (Table_overrun, s)
      else if c = 0 then Inr (tbl @ [(cmd, [])])
      else if c = ch CHR '':'' then
        (let (k, command, c) = name_loop arg (j + 1) 0 [] c in
         if k = 0 \<or> c \<noteq> 0 then Inl (error s arg)
         else Inr (tbl @ [(cmd, command)]))
      else Inl (error s arg))"

fun main_loop :: "string list \<Rightarrow> bool \<Rightarrow> table \<Rightarrow> state \<Rightarrow> (table \<times> state) result" where
  "main_loop [] comment tbl s = Inr (tbl, s)"
| "main_loop (arg # args) comment tbl s =
     (if comment then
        main_loop args False tbl (emit (ch (CHR 0x0A)) (emits arg (emits ''// '' s)))
      else if arg = ''-comment'' then main_loop args True tbl s
      else
        (case add_cmd arg tbl s of
           Inl e \<Rightarrow> Inl e
         | Inr tbl' \<Rightarrow> main_loop args False tbl' s))"

text \<open>\<open>args\<close> are \<^verbatim>\<open>argv[1]\<close> to \<^verbatim>\<open>argv[argc - 1]\<close>, \<open>input\<close> is what stdin holds.\<close>

definition initial :: "char list \<Rightarrow> state" where
  "initial input = \<lparr>stdin = input, stdout = [], preview = 0, cr = False, line_nr = 0\<rparr>"

definition main :: "string list \<Rightarrow> char list \<Rightarrow> state result" where
  "main args input =
     (case main_loop args False [] (initial input) of
        Inl e \<Rightarrow> Inl e
      | Inr (tbl, s) \<Rightarrow> process tbl s)"

text \<open>What a run leaves behind: the diagnostic, if it failed, and the text on stdout.\<close>

definition outcome :: "state result \<Rightarrow> (diagnostic \<times> string) + string" where
  "outcome r = (case r of Inl (d, s) \<Rightarrow> Inl (d, stdout s) | Inr s \<Rightarrow> Inr (stdout s))"

section \<open>Reading the input\<close>

text \<open>
  The characters still to be read are the one in the preview slot, if there is one, and
  then those on stdin. A state is sound when stdin holds no NUL and the preview slot is
  empty, holds a character, or holds \<^verbatim>\<open>EOF\<close> with stdin at its end. In a sound state
  \<^verbatim>\<open>get\<close> and \<^verbatim>\<open>peek\<close> are functions of the pending characters.
\<close>

declare of_char_Char [simp del]

lemma ch_range [simp]: "0 \<le> ch x" "ch x < 256" "ch x \<noteq> EOF"
proof -
  have "ch x = int (of_char x)" by (simp only: of_nat_of_char)
  moreover have "(of_char x :: nat) < 256" by (rule nat_of_char_less_256)
  ultimately show "0 \<le> ch x" "ch x < 256" "ch x \<noteq> EOF" by (simp_all add: EOF_def)
qed

lemma ch_neq_minus1 [simp]: "ch x \<noteq> - 1" "- 1 \<noteq> ch x" "EOF \<noteq> ch x"
proof -
  have "0 \<le> ch x" by simp
  then show "ch x \<noteq> - 1" and "- 1 \<noteq> ch x" and "EOF \<noteq> ch x"
    unfolding EOF_def by linarith+
qed

lemma ch_not_neg [simp]: "\<not> ch x < 0"
  using ch_range(1) [of x] by linarith

lemma ch_eq_iff [simp]: "ch x = ch y \<longleftrightarrow> x = y"
  by (rule of_char_eq_iff)

lemma ch_pos [simp]: "0 < ch x \<longleftrightarrow> x \<noteq> CHR 0x00"
proof -
  have "ch x = 0 \<longleftrightarrow> x = CHR 0x00"
    using ch_eq_iff [of x "CHR 0x00"] by (simp add: of_char_Char)
  then show ?thesis using ch_range(1) [of x] by linarith
qed

lemma ch_le0 [simp]: "ch x \<le> 0 \<longleftrightarrow> x = CHR 0x00"
  using ch_pos [of x] by linarith

lemma ch_eq0 [simp]: "ch x = 0 \<longleftrightarrow> x = CHR 0x00"
  using ch_eq_iff [of x "CHR 0x00"] by (simp add: of_char_Char)

definition pending :: "state \<Rightarrow> char list" where
  "pending s = (if preview s > 0 then char_of (preview s) # stdin s else stdin s)"

definition sound :: "state \<Rightarrow> bool" where
  "sound s \<longleftrightarrow>
     CHR 0x00 \<notin> set (stdin s) \<and>
     (if preview s < 0 then preview s = EOF \<and> stdin s = [] else preview s < 256)"

definition advance :: "bool \<Rightarrow> char \<Rightarrow> char list \<Rightarrow> state \<Rightarrow> state" where
  "advance echo x xs s =
     \<lparr>stdin = xs, stdout = stdout s @ (if echo then [x] else []), preview = 0,
      cr = (x = CHR 0x0D),
      line_nr =
        (if x = CHR 0x0D \<or> (x = CHR 0x0A \<and> \<not> cr s) then int32 (line_nr s + 1) else line_nr s)\<rparr>"

lemma preview_char: "0 < p \<Longrightarrow> p < 256 \<Longrightarrow> ch (char_of p) = p"
  by (simp add: of_char_of)

lemma get_nil: "sound s \<Longrightarrow> pending s = [] \<Longrightarrow> get echo s = (EOF, s\<lparr>preview := 0\<rparr>)"
  by (auto simp add: get_def fgetc_def sound_def pending_def EOF_def split: if_splits)

lemma get_cons:
  assumes "sound s" and "pending s = x # xs"
  shows "get echo s = (ch x, advance echo x xs s)"
proof (cases "preview s > 0")
  case True
  then have x: "ch x = preview s" and xs: "stdin s = xs" and "preview s < 256"
    using assms preview_char [of "preview s"] by (auto simp add: pending_def sound_def)
  have nz: "x \<noteq> CHR 0x00" using True x ch_pos [of x] by simp
  show ?thesis
    using True x [symmetric] xs nz
    by (auto simp add: get_def advance_def emit_def Let_def)
next
  case False
  then have st: "stdin s = x # xs" and p: "preview s = 0"
    using assms by (auto simp add: pending_def sound_def EOF_def split: if_splits)
  have nz: "x \<noteq> CHR 0x00" using assms(1) st by (auto simp add: sound_def)
  show ?thesis
    using st p nz
    by (auto simp add: get_def fgetc_def advance_def emit_def Let_def)
qed

lemma peek_nil: "sound s \<Longrightarrow> pending s = [] \<Longrightarrow> peek s = (EOF, s\<lparr>preview := EOF\<rparr>)"
  by (auto simp add: peek_def fgetc_def sound_def pending_def EOF_def split: if_splits)

lemma peek_cons:
  assumes "sound s" and "pending s = x # xs"
  shows "peek s = (ch x, s\<lparr>stdin := xs, preview := ch x\<rparr>)"
proof (cases "preview s > 0")
  case True
  then have x: "ch x = preview s" and xs: "stdin s = xs"
    using assms preview_char [of "preview s"] by (auto simp add: pending_def sound_def)
  show ?thesis
    using True x [symmetric] xs by (simp add: peek_def)
next
  case False
  then have st: "stdin s = x # xs" and p: "preview s = 0"
    using assms by (auto simp add: pending_def sound_def EOF_def split: if_splits)
  show ?thesis
    using st p by (simp add: peek_def fgetc_def)
qed

lemma sound_advance [simp]: "sound (advance echo x xs s) \<longleftrightarrow> CHR 0x00 \<notin> set xs"
  by (simp add: sound_def advance_def)

lemma pending_advance [simp]: "pending (advance echo x xs s) = xs"
  by (simp add: pending_def advance_def)

lemma advance_fields [simp]:
  "stdout (advance echo x xs s) = stdout s @ (if echo then [x] else [])"
  "preview (advance echo x xs s) = 0"
  "stdin (advance echo x xs s) = xs"
  "cr (advance echo x xs s) = (x = CHR 0x0D)"
  "line_nr (advance echo x xs s) =
     (if x = CHR 0x0D \<or> (x = CHR 0x0A \<and> \<not> cr s) then int32 (line_nr s + 1) else line_nr s)"
  by (simp_all add: advance_def)

lemma sound_pending: "sound s \<Longrightarrow> CHR 0x00 \<notin> set (pending s)"
proof -
  assume a: "sound s"
  have "char_of (preview s) \<noteq> CHR 0x00" if "0 < preview s"
  proof -
    have "preview s < 256" using a that by (simp add: sound_def)
    then have eq: "ch (char_of (preview s)) = preview s"
      using that by (rule_tac preview_char)
    show ?thesis
    proof
      assume "char_of (preview s) = CHR 0x00"
      then have "ch (CHR 0x00) = preview s" using eq by (simp only:)
      then show False using that by (simp add: of_char_Char)
    qed
  qed
  then show ?thesis using a by (auto simp add: sound_def pending_def)
qed


lemma get_sound:
  "sound s \<Longrightarrow>
     get echo s =
       (case pending s of
          [] \<Rightarrow> (EOF, s\<lparr>preview := 0\<rparr>)
        | x # xs \<Rightarrow> (ch x, advance echo x xs s))"
  by (simp add: get_nil get_cons split: list.split)

lemma peek_sound:
  "sound s \<Longrightarrow>
     peek s =
       (case pending s of
          [] \<Rightarrow> (EOF, s\<lparr>preview := EOF\<rparr>)
        | x # xs \<Rightarrow> (ch x, s\<lparr>stdin := xs, preview := ch x\<rparr>))"
  by (simp add: peek_nil peek_cons split: list.split)

lemma pending_peeked [simp]:
  "pending (s\<lparr>stdin := xs, preview := ch x\<rparr>) = (if x = CHR 0x00 then xs else x # xs)"
  by (simp add: pending_def)

lemma sound_peeked [simp]:
  "sound (s\<lparr>stdin := xs, preview := ch x\<rparr>) \<longleftrightarrow> CHR 0x00 \<notin> set xs"
  by (simp add: sound_def)

lemma pending_ended [simp]:
  "pending (s\<lparr>preview := 0\<rparr>) = stdin s" "pending (s\<lparr>preview := EOF\<rparr>) = stdin s"
  by (simp_all add: pending_def EOF_def)

lemma sound_ended [simp]:
  "sound (s\<lparr>preview := 0\<rparr>) \<longleftrightarrow> CHR 0x00 \<notin> set (stdin s)"
  "sound (s\<lparr>preview := EOF\<rparr>) \<longleftrightarrow> stdin s = []"
  by (auto simp add: sound_def EOF_def)

lemma pending_nil_stdin: "pending s = [] \<Longrightarrow> stdin s = []"
  by (simp add: pending_def split: if_splits)

lemma pending_written [simp]:
  "pending (emit c s) = pending s" "pending (emits str s) = pending s"
  "pending (s\<lparr>line_nr := n\<rparr>) = pending s" "pending (s\<lparr>stdout := out\<rparr>) = pending s"
  by (simp_all add: pending_def)

lemma sound_written [simp]:
  "sound (emit c s) = sound s" "sound (emits str s) = sound s"
  "sound (s\<lparr>line_nr := n\<rparr>) = sound s" "sound (s\<lparr>stdout := out\<rparr>) = sound s"
  by (simp_all add: sound_def)

lemma stdout_emit_ch [simp]:
  "stdout (emit (ch x) s) = (if x = CHR 0x00 then stdout s else stdout s @ [x])"
  by (simp add: emit_def)

lemma outcome_simps [simp]:
  "outcome (Inl (d, s)) = Inl (d, stdout s)" "outcome (Inr s) = Inr (stdout s)"
  by (simp_all add: outcome_def)

lemma error_simps [simp]:
  "snd (error s message) = s"
  "fst (error (s\<lparr>stdin := xs\<rparr>) message) = fst (error s message)"
  "fst (error (s\<lparr>stdout := out\<rparr>) message) = fst (error s message)"
  "fst (error (s\<lparr>preview := p\<rparr>) message) = fst (error s message)"
  "fst (error (s\<lparr>cr := b\<rparr>) message) = fst (error s message)"
  by (simp_all add: error_def)

lemma outcome_error [simp]: "outcome (Inl (error s message)) = Inl (fst (error s message), stdout s)"
  by (simp add: error_def)

lemma error_advance [simp]:
  "x \<noteq> CHR 0x0D \<Longrightarrow> x \<noteq> CHR 0x0A \<Longrightarrow>
     fst (error (advance echo x xs s) message) = fst (error s message)"
  by (simp add: error_def)

text \<open>
  \<open>line_after b n xs\<close> is the value of \<^verbatim>\<open>line_nr\<close> after \<^verbatim>\<open>get\<close> has returned the
  characters \<open>xs\<close> one by one, from the value \<open>n\<close> and the flag \<open>b\<close>.
\<close>

fun line_after :: "bool \<Rightarrow> int \<Rightarrow> char list \<Rightarrow> int" where
  "line_after b n [] = n"
| "line_after b n (x # xs) =
     line_after (x = CHR 0x0D)
       (if x = CHR 0x0D \<or> (x = CHR 0x0A \<and> \<not> b) then int32 (n + 1) else n) xs"

lemma int32_simps [simp]: "int32 0 = 0" "int32 1 = 1"
  by (simp_all add: int32_def)

lemma int32_id: "- 2147483648 \<le> n \<Longrightarrow> n < 2147483648 \<Longrightarrow> int32 n = n"
  by (simp add: int32_def)

section \<open>Properties\<close>

subsection \<open>The shapes of an expansion\<close>

text \<open>
  Characters that \<^verbatim>\<open>stuff\<close> and \<^verbatim>\<open>condition\<close> only copy: not a quote, a slash or a
  star, and not the NUL that \<^verbatim>\<open>get\<close> takes for the end of the input. \<^verbatim>\<open>condition\<close>
  also counts brackets.
\<close>

definition inert :: "char \<Rightarrow> bool" where
  "inert x \<longleftrightarrow> x \<noteq> CHR 0x00 \<and> \<not> is_quote (ch x) \<and> x \<noteq> CHR ''/'' \<and> x \<noteq> CHR ''*''"

definition bracket :: "char \<Rightarrow> bool" where
  "bracket x \<longleftrightarrow>
     x = CHR ''('' \<or> x = CHR ''{'' \<or> x = CHR ''['' \<or> x = CHR '')'' \<or> x = CHR ''}'' \<or> x = CHR '']''"

lemma stuff_loop_Exit: "stuff_body v = Exit r \<Longrightarrow> stuff_loop v = r"
  by (simp add: stuff_loop.simps [of v])

lemma stuff_loop_Continue: "stuff_body v = Continue v' \<Longrightarrow> stuff_loop v = stuff_loop v'"
  by (simp add: stuff_loop.simps [of v])

lemma condition_loop_Exit: "condition_body v = Exit r \<Longrightarrow> condition_loop v = r"
  by (simp add: condition_loop.simps [of v])

lemma condition_loop_Continue:
  "condition_body v = Continue v' \<Longrightarrow> condition_loop v = condition_loop v'"
  by (simp add: condition_loop.simps [of v])

lemma stuff_stars_close:
  assumes "sound s" and "pending s = ''*/'' @ rest"
  shows "stuff_stars s = (True, advance False (CHR ''/'') rest
     ((advance False (CHR ''*'') (CHR ''/'' # rest) (s\<lparr>stdin := CHR ''/'' # rest, preview := ch CHR ''*''\<rparr>))
        \<lparr>stdin := rest, preview := ch CHR ''/''\<rparr>))"
proof -
  have nul: "CHR 0x00 \<notin> set rest" using sound_pending [OF assms(1)] assms(2) by simp
  show ?thesis
    using assms nul by (simp add: stuff_stars.simps [of s] peek_sound get_sound)
qed

lemma stuff_stars_other:
  assumes "sound s" and "pending s = x # xs" and "x \<noteq> CHR ''*''"
  shows "stuff_stars s = (False, s\<lparr>stdin := xs, preview := ch x\<rparr>)"
  using assms by (simp add: stuff_stars.simps [of s] peek_sound)

lemma stuff_loop_inert:
  "sound s \<Longrightarrow> pending s = b @ ''*/'' @ rest \<Longrightarrow> list_all inert b \<Longrightarrow>
     \<exists>s'. stuff_loop (left, s) = Inr s' \<and> sound s' \<and> stdout s' = stdout s @ b \<and>
       pending s' = rest"
proof (induction b arbitrary: left s)
  case Nil
  have nul: "CHR 0x00 \<notin> set rest" using sound_pending [OF Nil.prems(1)] Nil.prems(2) by simp
  let ?s' = "advance False (CHR ''/'') rest
     ((advance False (CHR ''*'') (CHR ''/'' # rest) (s\<lparr>stdin := CHR ''/'' # rest, preview := ch CHR ''*''\<rparr>))
        \<lparr>stdin := rest, preview := ch CHR ''/''\<rparr>)"
  have "stuff_body (left, s) = Exit (Inr ?s')"
    using stuff_stars_close [of s rest] Nil.prems by (simp add: stuff_body_def)
  then have "stuff_loop (left, s) = Inr ?s'" by (rule stuff_loop_Exit)
  then show ?case
    using nul by (intro exI [of _ ?s']) simp
next
  case (Cons x b)
  have p: "pending s = x # (b @ ''*/'' @ rest)" using Cons.prems(2) by simp
  have b: "list_all inert b" using Cons.prems(3) by simp
  have "inert x" using Cons.prems(3) by simp
  then have x: "x \<noteq> CHR 0x00" "\<not> is_quote (ch x)" "x \<noteq> CHR ''/''" "x \<noteq> CHR ''*''"
    by (simp_all add: inert_def)
  have nul: "CHR 0x00 \<notin> set (b @ ''*/'' @ rest)"
    using sound_pending [OF Cons.prems(1)] p by simp
  let ?s1 = "s\<lparr>stdin := b @ ''*/'' @ rest, preview := ch x\<rparr>"
  let ?s2 = "advance True x (b @ ''*/'' @ rest) ?s1"
  have "stuff_body (left, s) = Continue (note_left (ch x) left, ?s2)"
    using stuff_stars_other [OF Cons.prems(1) p x(4)] x nul
    by (simp add: stuff_body_def get_sound)
  then have 1: "stuff_loop (left, s) = stuff_loop (note_left (ch x) left, ?s2)"
    by (rule stuff_loop_Continue)
  obtain s' where "stuff_loop (note_left (ch x) left, ?s2) = Inr s'" "sound s'"
      "stdout s' = stdout ?s2 @ b" "pending s' = rest"
    using Cons.IH [of ?s2 "note_left (ch x) left"] nul b by auto
  then show ?case
    using 1 by (intro exI [of _ s']) simp
qed

lemma condition_loop_inert:
  "sound s \<Longrightarrow> pending s = c @ '')'' @ rest \<Longrightarrow> list_all (\<lambda>x. inert x \<and> \<not> bracket x) c \<Longrightarrow>
     \<exists>s'. condition_loop (left, 1, s) = Inr s' \<and> sound s' \<and> stdout s' = stdout s @ c @ '')'' \<and>
       pending s' = rest"
proof (induction c arbitrary: left s)
  case Nil
  have nul: "CHR 0x00 \<notin> set rest" using sound_pending [OF Nil.prems(1)] Nil.prems(2) by simp
  have "condition_body (left, 1, s) = Exit (Inr (advance True (CHR '')'') rest s))"
    using Nil.prems by (simp add: condition_body_def get_sound)
  then have "condition_loop (left, 1, s) = Inr (advance True (CHR '')'') rest s)"
    by (rule condition_loop_Exit)
  then show ?case
    using nul by (intro exI [of _ "advance True (CHR '')'') rest s"]) simp
next
  case (Cons x c)
  have p: "pending s = x # (c @ '')'' @ rest)" using Cons.prems(2) by simp
  have c: "list_all (\<lambda>x. inert x \<and> \<not> bracket x) c" using Cons.prems(3) by simp
  have "inert x" and nb: "\<not> bracket x" using Cons.prems(3) by simp_all
  then have x: "x \<noteq> CHR 0x00" "\<not> is_quote (ch x)" "x \<noteq> CHR ''/''" "x \<noteq> CHR ''*''"
    by (simp_all add: inert_def)
  have nul: "CHR 0x00 \<notin> set (c @ '')'' @ rest)"
    using sound_pending [OF Cons.prems(1)] p by simp
  let ?s1 = "advance True x (c @ '')'' @ rest) s"
  have "condition_body (left, 1, s) = Continue (note_left (ch x) left, 1, ?s1)"
    using Cons.prems(1) p x nb
    by (simp add: condition_body_def get_sound star_slash_def bracket_def)
  then have 1: "condition_loop (left, 1, s) = condition_loop (note_left (ch x) left, 1, ?s1)"
    by (rule condition_loop_Continue)
  obtain s' where "condition_loop (note_left (ch x) left, 1, ?s1) = Inr s'" "sound s'"
      "stdout s' = stdout ?s1 @ c @ '')''" "pending s' = rest"
    using Cons.IH [of ?s1 "note_left (ch x) left"] nul c by auto
  then show ?case
    using 1 by (intro exI [of _ s']) simp
qed


lemma stuff_inert:
  assumes "sound s" and "pending s = b @ ''*/'' @ rest" and "list_all inert b"
  shows "\<exists>s'. stuff s = Inr s' \<and> sound s' \<and> stdout s' = stdout s @ b \<and> pending s' = rest"
  unfolding stuff_def using assms by (rule stuff_loop_inert)

lemma condition_inert:
  assumes "sound s" and "pending s = ''('' @ c @ '')'' @ rest"
    and "list_all (\<lambda>x. inert x \<and> \<not> bracket x) c"
  shows "\<exists>s'. condition s = Inr s' \<and> sound s' \<and> stdout s' = stdout s @ ''('' @ c @ '')'' \<and>
     pending s' = rest"
proof -
  have p: "pending s = CHR ''('' # (c @ '')'' @ rest)" using assms(2) by simp
  have nul: "CHR 0x00 \<notin> set (c @ '')'' @ rest)"
    using sound_pending [OF assms(1)] p by simp
  let ?s1 = "advance True (CHR ''('') (c @ '')'' @ rest) s"
  have "condition_body (0, 0, s) = Continue (note_left (ch CHR ''('') 0, 1, ?s1)"
    using assms(1) p by (simp add: condition_body_def get_sound)
  then have 1: "condition_loop (0, 0, s) = condition_loop (note_left (ch CHR ''('') 0, 1, ?s1)"
    by (rule condition_loop_Continue)
  obtain s' where "condition_loop (note_left (ch CHR ''('') 0, 1, ?s1) = Inr s'" "sound s'"
      "stdout s' = stdout ?s1 @ c @ '')''" "pending s' = rest"
    using condition_loop_inert [of ?s1 c rest "note_left (ch CHR ''('') 0"] nul assms(3) by auto
  then show ?thesis
    using 1 by (intro exI [of _ s']) (simp add: condition_def)
qed

text \<open>
  The block that \<^verbatim>\<open>expand\<close> writes for the stuff \<open>b\<close>: a call of \<open>command\<close> if the
  command line gave one, the stuff alone otherwise. The two lemmas that follow give the
  output of \<^verbatim>\<open>expand\<close> for any stuff and any condition of characters that are only
  copied: the stuff is all that stands before the closing \<^verbatim>\<open>*/\<close>.
\<close>

definition braces :: "string \<Rightarrow> string \<Rightarrow> string" where
  "braces command b =
     ''{'' @ (if command = [] then b else command @ ''('' @ b @ '')'') @ '';}''"

lemma expand_unconditional:
  assumes "sound s" and "pending s = b @ ''*/'' @ rest" and "list_all inert b"
    and "hd (b @ ''*'') \<noteq> CHR ''(''"
  shows "\<exists>s'. expand tbl cmd_nr s = Inr s' \<and>
     stdout s' = stdout s @ braces (snd (tbl ! nat cmd_nr)) b \<and> pending s' = rest"
proof -
  obtain x xs where p: "pending s = x # xs" and x: "x = hd (b @ ''*'')"
    using assms(2) by (cases b) simp_all
  have nul: "x \<noteq> CHR 0x00" "CHR 0x00 \<notin> set xs"
    using sound_pending [OF assms(1)] p by auto
  let ?s1 = "s\<lparr>stdin := xs, preview := ch x\<rparr>"
  let ?command = "snd (tbl ! nat cmd_nr)"
  have pk: "peek s = (ch x, ?s1)" using assms(1) p by (simp add: peek_sound)
  have s1: "sound ?s1" "pending ?s1 = b @ ''*/'' @ rest" "stdout ?s1 = stdout s"
    using nul p assms(2) by simp_all
  have nc: "ch x \<noteq> ch CHR ''(''" using assms(4) x by simp
  show ?thesis
  proof (cases "?command = []")
    case True
    obtain s' where s': "stuff (emit (ch CHR ''{'') ?s1) = Inr s'"
        "stdout s' = stdout (emit (ch CHR ''{'') ?s1) @ b" "pending s' = rest"
      using stuff_inert [of "emit (ch CHR ''{'') ?s1" b rest] s1 assms(3) by auto
    show ?thesis
      using pk nc True s'
      by (intro exI [of _ "emits '';}'' s'"]) (simp add: expand_def braces_def)
  next
    case False
    let ?s3 = "emit (ch CHR ''('') (emits ?command (emit (ch CHR ''{'') ?s1))"
    obtain s' where s': "stuff ?s3 = Inr s'" "stdout s' = stdout ?s3 @ b" "pending s' = rest"
      using stuff_inert [of ?s3 b rest] s1 assms(3) by auto
    show ?thesis
      using pk nc False s'
      by (intro exI [of _ "emits '';}'' (emit (ch CHR '')'') s')"])
        (simp add: expand_def braces_def)
  qed
qed

lemma expand_conditional:
  assumes "sound s" and "pending s = ''('' @ c @ '')'' @ b @ ''*/'' @ rest"
    and "list_all inert b" and "list_all (\<lambda>x. inert x \<and> \<not> bracket x) c"
  shows "\<exists>s'. expand tbl cmd_nr s = Inr s' \<and>
     stdout s' = stdout s @ ''if ('' @ c @ '')'' @ braces (snd (tbl ! nat cmd_nr)) b \<and>
     pending s' = rest"
proof -
  let ?xs = "c @ '')'' @ b @ ''*/'' @ rest"
  have p: "pending s = CHR ''('' # ?xs" using assms(2) by simp
  have nul: "CHR 0x00 \<notin> set ?xs"
    using sound_pending [OF assms(1)] p by simp
  let ?s1 = "emits ''if '' (s\<lparr>stdin := ?xs, preview := ch CHR ''(''\<rparr>)"
  let ?command = "snd (tbl ! nat cmd_nr)"
  have pk: "peek s = (ch CHR ''('', s\<lparr>stdin := ?xs, preview := ch CHR ''(''\<rparr>)"
    using assms(1) p by (simp add: peek_sound)
  have s1: "sound ?s1" "pending ?s1 = ''('' @ c @ '')'' @ (b @ ''*/'' @ rest)"
      "stdout ?s1 = stdout s @ ''if ''"
    using nul by simp_all
  obtain s2 where s2: "condition ?s1 = Inr s2" "sound s2"
      "stdout s2 = stdout ?s1 @ ''('' @ c @ '')''" "pending s2 = b @ ''*/'' @ rest"
    using condition_inert [OF s1(1,2) assms(4)] by auto
  show ?thesis
  proof (cases "?command = []")
    case True
    obtain s' where s': "stuff (emit (ch CHR ''{'') s2) = Inr s'"
        "stdout s' = stdout (emit (ch CHR ''{'') s2) @ b" "pending s' = rest"
      using stuff_inert [of "emit (ch CHR ''{'') s2" b rest] s2 assms(3) by auto
    show ?thesis
      using pk True s' s2 s1(3)
      by (intro exI [of _ "emits '';}'' s'"]) (simp add: expand_def braces_def)
  next
    case False
    let ?s3 = "emit (ch CHR ''('') (emits ?command (emit (ch CHR ''{'') s2))"
    obtain s' where s': "stuff ?s3 = Inr s'" "stdout s' = stdout ?s3 @ b" "pending s' = rest"
      using stuff_inert [of ?s3 b rest] s2 assms(3) by auto
    show ?thesis
      using pk False s' s2 s1(3)
      by (intro exI [of _ "emits '';}'' (emit (ch CHR '')'') s')"])
        (simp add: expand_def braces_def)
  qed
qed

text \<open>
  Claim C1 says that \<^verbatim>\<open>/*log "hi"*/\<close> produces \<^verbatim>\<open>{console.log("hi");}\<close>, that
  \<^verbatim>\<open>/*debug x=1*/\<close> produces \<^verbatim>\<open>{x=1;}\<close> and that \<^verbatim>\<open>/*alarm(x>0) "go"*/\<close> produces
  \<^verbatim>\<open>if (x>0) {alert("go");}\<close>; these are the shapes that the comment at the head of
  \<^verbatim>\<open>jsdev.c\<close> documents. The program writes something else. \<^verbatim>\<open>stuff\<close> copies every
  character between the command (or the condition) and the closing \<^verbatim>\<open>*/\<close>, the space
  that separates them included, and \<^verbatim>\<open>expand\<close> writes \<^verbatim>\<open>if \<close>, the condition and the
  brace with nothing in between. The outputs are \<^verbatim>\<open>{console.log( "hi");}\<close>,
  \<^verbatim>\<open>{ x=1;}\<close> and \<^verbatim>\<open>if (x>0){alert( "go");}\<close>, and for the fourth shape, a condition
  without a replacement, \<^verbatim>\<open>if (x>0){ y=1;}\<close>; the last line has a condition with
  brackets inside.
\<close>

theorem expansion_shapes:
  \<open>outcome (main [''log:console.log''] ''/*log "hi"*/'') = Inr ''{console.log( "hi");}'' \<and>
   outcome (main [''debug''] ''/*debug x=1*/'') = Inr ''{ x=1;}'' \<and>
   outcome (main [''alarm:alert''] ''/*alarm(x>0) "go"*/'') = Inr ''if (x>0){alert( "go");}'' \<and>
   outcome (main [''debug''] ''/*debug(x>0) y=1*/'') = Inr ''if (x>0){ y=1;}'' \<and>
   outcome (main [''debug''] ''/*debug(f(x)>0) y=1*/'') = Inr ''if (f(x)>0){ y=1;}''\<close>
  by code_simp

subsection \<open>The line number of an unterminated construct\<close>

text \<open>
  Claim C4 says that an input that ends inside a string literal, a regular expression
  literal, a condition or the stuff of a pattern is reported with the line on which the
  construct began. \<^verbatim>\<open>string\<close> and \<^verbatim>\<open>regexp\<close> put \<^verbatim>\<open>line_nr\<close> back to the line they
  were entered on before they call \<^verbatim>\<open>error\<close>; \<^verbatim>\<open>condition\<close>, \<^verbatim>\<open>stuff\<close> and the
  character class loop of \<^verbatim>\<open>regexp\<close> do not. So a pattern, a condition and a character
  class that begin on line 1 and are cut off on line 2 are reported with line 2, a string
  and a regular expression with line 1.
\<close>

theorem unterminated_line_numbers:
  \<open>outcome (main [''debug''] (''/*debug x'' @ [CHR 0x0A] @ ''y'')) =
     Inl (At_line 2 ''Unterminated stuff.'', ''{ x'' @ [CHR 0x0A] @ ''y'') \<and>
   outcome (main [''debug''] (''/*debug(x'' @ [CHR 0x0A] @ ''y'')) =
     Inl (At_line 2 ''Unterminated condition.'', ''if (x'' @ [CHR 0x0A] @ ''y'') \<and>
   outcome (main [] (''r = /[x'' @ [CHR 0x0A] @ ''y'')) =
     Inl (At_line 2 ''unterminated set in Regular Expression literal.'',
       ''r = /[x'' @ [CHR 0x0A] @ ''y'') \<and>
   outcome (main [] (''s = "x'' @ [CHR 0x0A] @ ''y'')) =
     Inl (At_line 1 ''unterminated string literal.'', ''s = "x'' @ [CHR 0x0A] @ ''y'') \<and>
   outcome (main [] (''r = /x'' @ [CHR 0x0A] @ ''y'')) =
     Inl (At_line 1 ''unterminated regexp literal.'', ''r = /x'' @ [CHR 0x0A] @ ''y'')\<close>
  by code_simp

subsection \<open>Declarations on the command line\<close>

text \<open>
  Claim C8 says that a declaration is accepted when its command and its replacement have
  1 to 80 characters each. Both loops of \<^verbatim>\<open>main\<close> stop after 80 characters with \<^verbatim>\<open>c\<close>
  still holding the 80th, so the tests \<^verbatim>\<open>c == 0\<close> and \<^verbatim>\<open>c == ':'\<close> that follow fail:
  a command of 80 letters is rejected, and so is a replacement of 80 letters, while 79
  letters are accepted in both places. The rejection carries no line number.
\<close>

theorem eighty_character_names_rejected:
  "outcome (main [replicate 80 CHR ''a''] ''x'') =
     Inl (Bad_command_line (replicate 80 CHR ''a''), []) \<and>
   outcome (main [''a:'' @ replicate 80 CHR ''b''] ''x'') =
     Inl (Bad_command_line (''a:'' @ replicate 80 CHR ''b''), []) \<and>
   outcome (main [replicate 79 CHR ''a'' @ '':'' @ replicate 79 CHR ''b''] ''x'') = Inr ''x''"
  by code_simp

subsection \<open>NUL bytes in the input\<close>

text \<open>
  Claim C9 says that the first NUL byte ends the input. \<^verbatim>\<open>get\<close> does report \<^verbatim>\<open>EOF\<close>
  for a NUL, but \<^verbatim>\<open>peek\<close> stores the NUL in \<^verbatim>\<open>preview\<close>, where 0 means that nothing is
  stored, so the NUL is lost and the next read goes on behind it; and after a \<^verbatim>\<open>//\<close>
  comment that a NUL has ended, \<^verbatim>\<open>process\<close> reads on. In both cases the characters
  behind the NUL are copied to the output.
\<close>

theorem nul_is_skipped:
  "outcome (main [] (''/'' @ [CHR 0x00] @ ''abc'')) = Inr ''/abc'' \<and>
   outcome (main [] (''//x'' @ [CHR 0x00] @ ''abc'')) = Inr ''//xabc'' \<and>
   outcome (main [] (''x'' @ [CHR 0x00] @ ''abc'')) = Inr ''x''"
  by code_simp

subsection \<open>Counting lines\<close>

text \<open>
  \<open>read_chars echo n\<close> is \<open>n\<close> calls of \<^verbatim>\<open>get\<close> in a row. \<open>line_ends\<close> counts the line
  terminators of a text the way the claim words it, without a flag: a carriage return
  followed by a line feed is one terminator, any other carriage return or line feed is
  one as well. \<open>join_lines eol ls\<close> is the text of the lines \<open>ls\<close>, each ended by \<open>eol\<close>.
  \<open>count_from\<close> counts with the flag, as \<^verbatim>\<open>get\<close> does.
\<close>

fun read_chars :: "bool \<Rightarrow> nat \<Rightarrow> state \<Rightarrow> state" where
  "read_chars echo 0 s = s"
| "read_chars echo (Suc n) s = read_chars echo n (snd (get echo s))"

fun line_ends :: "char list \<Rightarrow> nat" where
  "line_ends [] = 0"
| "line_ends [x] = (if x = CHR 0x0D \<or> x = CHR 0x0A then 1 else 0)"
| "line_ends (x # y # zs) =
     (if x = CHR 0x0D \<and> y = CHR 0x0A then 1 + line_ends zs
      else if x = CHR 0x0D \<or> x = CHR 0x0A then 1 + line_ends (y # zs)
      else line_ends (y # zs))"

definition join_lines :: "char list \<Rightarrow> char list list \<Rightarrow> char list" where
  "join_lines eol ls = concat (map (\<lambda>l. l @ eol) ls)"

fun count_from :: "bool \<Rightarrow> char list \<Rightarrow> nat" where
  "count_from b [] = 0"
| "count_from b (x # xs) =
     (if x = CHR 0x0D \<or> (x = CHR 0x0A \<and> \<not> b) then 1 else 0) + count_from (x = CHR 0x0D) xs"

lemma count_from_flag:
  "take 1 xs \<noteq> [CHR 0x0A] \<Longrightarrow> count_from True xs = count_from False xs"
  by (cases xs) auto

lemma count_from_line_ends: "count_from False xs = line_ends xs"
proof (induction xs rule: line_ends.induct)
  case 1
  show ?case by simp
next
  case (2 x)
  show ?case by simp
next
  case (3 x y zs)
  show ?case
  proof (cases "x = CHR 0x0D")
    case True
    show ?thesis
    proof (cases "y = CHR 0x0A")
      case True
      with \<open>x = CHR 0x0D\<close> 3 show ?thesis by simp
    next
      case False
      then have "count_from True (y # zs) = count_from False (y # zs)"
        by (intro count_from_flag) simp
      with \<open>x = CHR 0x0D\<close> False 3 show ?thesis by simp
    qed
  next
    case False
    with 3 show ?thesis by simp
  qed
qed

lemma get_line_nr:
  "get echo s = (c, s') \<Longrightarrow> c \<noteq> EOF \<Longrightarrow>
     line_nr s' =
       (if c = ch (CHR 0x0D) \<or> (c = ch (CHR 0x0A) \<and> \<not> cr s) then int32 (line_nr s + 1)
        else line_nr s) \<and>
     cr s' = (c = ch (CHR 0x0D))"
  by (auto simp add: get_def fgetc_def Let_def EOF_def split: if_splits list.splits)

lemma read_chars_lines:
  "sound s \<Longrightarrow> pending s = xs @ rest \<Longrightarrow>
     line_nr (read_chars echo (length xs) s) = line_after (cr s) (line_nr s) xs \<and>
     pending (read_chars echo (length xs) s) = rest"
proof (induction xs arbitrary: s)
  case Nil
  then show ?case by simp
next
  case (Cons x xs)
  have nul: "CHR 0x00 \<notin> set (xs @ rest)"
    using sound_pending [OF Cons.prems(1)] Cons.prems(2) by simp
  have g: "get echo s = (ch x, advance echo x (xs @ rest) s)"
    using Cons.prems by (simp add: get_sound)
  have "line_nr (read_chars echo (length xs) (advance echo x (xs @ rest) s)) =
      line_after (cr (advance echo x (xs @ rest) s)) (line_nr (advance echo x (xs @ rest) s)) xs
      \<and> pending (read_chars echo (length xs) (advance echo x (xs @ rest) s)) = rest"
    using nul by (intro Cons.IH) simp_all
  then show ?case
    by (simp add: g)
qed

lemma step_lines:
  "((\<lambda>n. int32 (n + 1)) ^^ k) (int32 (m + 1)) = int32 (((\<lambda>n. int32 (n + 1)) ^^ k) m + 1)"
  using funpow_swap1 [of "\<lambda>n. int32 (n + 1)" k m] by simp

lemma line_after_count:
  "line_after b n xs = ((\<lambda>n. int32 (n + 1)) ^^ count_from b xs) n"
  by (induction xs arbitrary: b n) (simp_all add: step_lines)

lemma count_from_plain:
  "CHR 0x0D \<notin> set l \<Longrightarrow> CHR 0x0A \<notin> set l \<Longrightarrow> xs \<noteq> [] \<Longrightarrow>
     count_from False (l @ xs) = count_from False xs"
proof (induction l)
  case Nil then show ?case by simp
next
  case (Cons a l) then show ?case by auto
qed

lemma line_ends_join:
  assumes "eol = [CHR 0x0D, CHR 0x0A] \<or> eol = [CHR 0x0A] \<or> eol = [CHR 0x0D]"
    and "\<forall>l \<in> set ls. CHR 0x0D \<notin> set l \<and> CHR 0x0A \<notin> set l"
  shows "line_ends (join_lines eol ls) = length ls"
proof -
  have "count_from False (join_lines eol ls) = length ls"
    using assms(2)
  proof (induction ls)
    case Nil
    show ?case by (simp add: join_lines_def)
  next
    case (Cons l ls)
    have ne: "eol \<noteq> []" using assms(1) by auto
    have ih: "count_from False (join_lines eol ls) = length ls"
      using Cons by simp
    have plain: "CHR 0x0D \<notin> set l" "CHR 0x0A \<notin> set l" using Cons.prems by simp_all
    have nolf: "take 1 (join_lines eol ls) \<noteq> [CHR 0x0A]" if "eol = [CHR 0x0D]"
    proof (cases ls)
      case Nil then show ?thesis by (simp add: join_lines_def)
    next
      case (Cons l' ls')
      then have "CHR 0x0A \<notin> set l'" using Cons.prems \<open>\<forall>l\<in>set (l # ls). _\<close> by simp
      then show ?thesis using Cons that by (cases l') (auto simp add: join_lines_def)
    qed
    have "count_from False (l @ eol @ join_lines eol ls) = count_from False (eol @ join_lines eol ls)"
      using plain ne by (intro count_from_plain) simp_all
    also have "\<dots> = 1 + count_from False (join_lines eol ls)"
      using assms(1) nolf count_from_flag [of "join_lines eol ls"] by auto
    finally show ?case using ih by (simp add: join_lines_def)
  qed
  then show ?thesis by (simp add: count_from_line_ends)
qed

text \<open>
  By itself \<^verbatim>\<open>get\<close> counts every line terminator once: when the characters of a
  text have been read from a sound state whose flag is down, each by one call of
  \<^verbatim>\<open>get\<close>, \<^verbatim>\<open>line_nr\<close> has been stepped once for every line terminator of the text,
  and for lines that are all ended by CR LF, all by LF or all by CR that is once for
  every line.
\<close>

lemma get_counts_line_ends:
  assumes "sound s" and "\<not> cr s" and "pending s = text @ rest"
  shows "line_nr (read_chars echo (length text) s) =
           ((\<lambda>n. int32 (n + 1)) ^^ line_ends text) (line_nr s)"
    and "text = join_lines eol ls \<Longrightarrow>
         eol = [CHR 0x0D, CHR 0x0A] \<or> eol = [CHR 0x0A] \<or> eol = [CHR 0x0D] \<Longrightarrow>
         \<forall>l \<in> set ls. CHR 0x0D \<notin> set l \<and> CHR 0x0A \<notin> set l \<Longrightarrow>
         line_nr (read_chars echo (length text) s) =
           ((\<lambda>n. int32 (n + 1)) ^^ length ls) (line_nr s)"
proof -
  show 1: "line_nr (read_chars echo (length text) s) =
      ((\<lambda>n. int32 (n + 1)) ^^ line_ends text) (line_nr s)"
    using read_chars_lines [OF assms(1,3), of echo] assms(2)
    by (simp add: line_after_count count_from_line_ends)
  show "line_nr (read_chars echo (length text) s) =
      ((\<lambda>n. int32 (n + 1)) ^^ length ls) (line_nr s)"
    if "text = join_lines eol ls"
      and "eol = [CHR 0x0D, CHR 0x0A] \<or> eol = [CHR 0x0A] \<or> eol = [CHR 0x0D]"
      and "\<forall>l \<in> set ls. CHR 0x0D \<notin> set l \<and> CHR 0x0A \<notin> set l"
    using 1 that line_ends_join [of eol ls] by simp
qed

text \<open>
  Claim C7 says that the line counter goes up exactly once for every line terminator
  that is consumed, so that the line numbers of the diagnostics are those of the text.
  \<^verbatim>\<open>process\<close> reads the character that ends the command of a comment with \<^verbatim>\<open>get\<close>,
  puts it back with \<^verbatim>\<open>unget\<close> and reads it again, and \<^verbatim>\<open>get\<close> counts it both times.
  A line terminator directly behind \<^verbatim>\<open>/*\<close> or behind the command is counted twice:
  the quote below stands on line 2 and is reported on line 3, whether the line is ended
  by LF, by CR or by CR LF, in a comment that is copied and in one that is expanded.
  With a space before the line terminator the report is line 2.
\<close>

theorem line_end_counted_twice:
  "outcome (main [] (''/*'' @ [CHR 0x0A] @ ''*/ '' @ [CHR 0x27])) =
     Inl (At_line 3 ''unterminated string literal.'', ''/*'' @ [CHR 0x0A] @ ''*/ '' @ [CHR 0x27]) \<and>
   outcome (main [] (''/*'' @ [CHR 0x0D] @ ''*/ '' @ [CHR 0x27])) =
     Inl (At_line 3 ''unterminated string literal.'', ''/*'' @ [CHR 0x0D] @ ''*/ '' @ [CHR 0x27]) \<and>
   outcome (main [] (''/*'' @ [CHR 0x0D, CHR 0x0A] @ ''*/ '' @ [CHR 0x27])) =
     Inl (At_line 3 ''unterminated string literal.'',
       ''/*'' @ [CHR 0x0D, CHR 0x0A] @ ''*/ '' @ [CHR 0x27]) \<and>
   outcome (main [] (''/*note'' @ [CHR 0x0A] @ ''*/ '' @ [CHR 0x27])) =
     Inl (At_line 3 ''unterminated string literal.'',
       ''/*note'' @ [CHR 0x0A] @ ''*/ '' @ [CHR 0x27]) \<and>
   outcome (main [''debug''] (''/*debug'' @ [CHR 0x0A] @ ''x*/ '' @ [CHR 0x27])) =
     Inl (At_line 3 ''unterminated string literal.'', ''{'' @ [CHR 0x0A] @ ''x;} '' @ [CHR 0x27]) \<and>
   outcome (main [] (''/* '' @ [CHR 0x0A] @ ''*/ '' @ [CHR 0x27])) =
     Inl (At_line 2 ''unterminated string literal.'', ''/* '' @ [CHR 0x0A] @ ''*/ '' @ [CHR 0x27])"
  by code_simp

subsection \<open>Skipping a string literal\<close>

text \<open>
  \<open>literal_span q xs\<close> splits a text behind an opening quote \<open>q\<close> at the first
  occurrence of \<open>q\<close> that no backslash escapes: a backslash takes the character behind
  it along, whatever it is. The result is the rest of the literal, closing quote
  included, and what follows it; there is none when the text ends first.
\<close>

fun literal_span :: "char \<Rightarrow> char list \<Rightarrow> (char list \<times> char list) option" where
  "literal_span q [] = None"
| "literal_span q [x] = (if x = q then Some ([x], []) else None)"
| "literal_span q (x # y # ys) =
     (if x = q then Some ([x], y # ys)
      else if x = CHR 0x5C then
        map_option (\<lambda>(body, rest). (x # y # body, rest)) (literal_span q ys)
      else map_option (\<lambda>(body, rest). (x # body, rest)) (literal_span q (y # ys)))"

lemma string_body_close:
  "sound s \<Longrightarrow> pending s = q # xs \<Longrightarrow>
     string_body (ch q) in_comment was s = Exit (Inr (advance True q xs s))"
  by (simp add: string_body_def get_sound)

lemma string_body_plain:
  assumes "sound s" and "pending s = x # xs" and "x \<noteq> q" and "x \<noteq> CHR 0x5C"
    and "\<not> (in_comment \<and> x = CHR ''*'' \<and> take 1 xs = ''/'')"
  shows "\<exists>s'. string_body (ch q) in_comment was s = Continue s' \<and> sound s' \<and>
           pending s' = xs \<and> stdout s' = stdout s @ [x]"
proof -
  have nul: "CHR 0x00 \<notin> set xs" "x \<noteq> CHR 0x00"
    using sound_pending [OF assms(1)] assms(2) by auto
  show ?thesis
    using assms nul
    by (cases xs)
      (auto simp add: string_body_def star_slash_def get_sound peek_sound)
qed

lemma string_body_escape:
  assumes "sound s" and "pending s = CHR 0x5C # y # ys" and "q \<noteq> CHR 0x5C"
    and "\<not> (in_comment \<and> y = CHR ''*'' \<and> take 1 ys = ''/'')"
  shows "\<exists>s'. string_body (ch q) in_comment was s = Continue s' \<and> sound s' \<and>
           pending s' = ys \<and> stdout s' = stdout s @ [CHR 0x5C, y]"
proof -
  have nul: "CHR 0x00 \<notin> set ys" "y \<noteq> CHR 0x00"
    using sound_pending [OF assms(1)] assms(2) by auto
  show ?thesis
    using assms nul
    by (cases ys)
      (auto simp add: string_body_def star_slash_def get_sound peek_sound)
qed

lemma string_body_end:
  assumes "sound s" and "pending s = [] \<or> (pending s = [CHR 0x5C] \<and> q \<noteq> CHR 0x5C)"
  shows "\<exists>s'. string_body (ch q) False was s =
             Exit (Inl (error s' ''unterminated string literal.'')) \<and>
           line_nr s' = was \<and> stdout s' = stdout s @ pending s"
  using assms
  by (auto simp add: string_body_def star_slash_def get_sound peek_sound dest: pending_nil_stdin)


lemma no_close_Cons:
  "\<not> sublist ''*/'' (x # xs) \<Longrightarrow>
     \<not> (x = CHR ''*'' \<and> take 1 xs = ''/'') \<and> \<not> sublist ''*/'' xs"
  by (cases xs) (auto simp add: sublist_Cons_right)

lemma literal_span_append:
  "literal_span q xs = Some (body, rest) \<Longrightarrow> xs = body @ rest \<and> body \<noteq> []"
  by (induction q xs arbitrary: body rule: literal_span.induct) (auto split: if_splits)

lemma literal_span_take:
  "literal_span q xs = Some (body, rest) \<Longrightarrow> take 1 xs = take 1 body"
  using literal_span_append [of q xs body rest] by (cases body) auto

lemma string_loop_returns:
  "sound s \<Longrightarrow> pending s = xs \<Longrightarrow> literal_span q xs = Some (body, rest) \<Longrightarrow>
     (in_comment \<longrightarrow> \<not> sublist ''*/'' body) \<Longrightarrow>
     \<exists>s'. string_loop (ch q) in_comment was s = Inr s' \<and> sound s' \<and>
       stdout s' = stdout s @ body \<and> pending s' = rest"
proof (induction q xs arbitrary: s body rule: literal_span.induct)
  case (1 q)
  then show ?case by simp
next
  case (2 q x)
  then have p: "pending s = [q]" and b: "body = [q]" "rest = []"
    by (auto split: if_splits)
  show ?case
    using string_body_close [OF "2.prems"(1) p, of in_comment was] b
    by (simp add: string_loop.simps [of "ch q" in_comment was s])
next
  case (3 q x y ys)
  note p = "3.prems"(2)
  have nul: "CHR 0x00 \<notin> set (y # ys)"
    using sound_pending [OF "3.prems"(1)] p by simp
  show ?case
  proof (cases "x = q")
    case True
    then have b: "body = [q]" "rest = y # ys" using "3.prems"(3) by simp_all
    show ?thesis
      using string_body_close [of s q "y # ys" in_comment was] "3.prems"(1) p True b nul
      by (simp add: string_loop.simps [of "ch q" in_comment was s])
  next
    case nq: False
    show ?thesis
    proof (cases "x = CHR 0x5C")
      case True
      obtain b' where b': "literal_span q ys = Some (b', rest)" and body: "body = x # y # b'"
        using "3.prems"(3) nq True by auto
      have nc: "\<not> (in_comment \<and> y = CHR ''*'' \<and> take 1 ys = ''/'')"
        and nc': "in_comment \<longrightarrow> \<not> sublist ''*/'' b'"
      proof -
        have "take 1 ys = take 1 b'"
          using b' by (rule literal_span_take)
        then show "\<not> (in_comment \<and> y = CHR ''*'' \<and> take 1 ys = ''/'')"
          using "3.prems"(4) body no_close_Cons [of x "y # b'"] no_close_Cons [of y b']
          by auto
        show "in_comment \<longrightarrow> \<not> sublist ''*/'' b'"
          using "3.prems"(4) body no_close_Cons [of x "y # b'"] no_close_Cons [of y b']
          by auto
      qed
      obtain s1 where s1: "string_body (ch q) in_comment was s = Continue s1" "sound s1"
          "pending s1 = ys" "stdout s1 = stdout s @ [CHR 0x5C, y]"
        using string_body_escape [of s y ys q in_comment was] "3.prems"(1) p True nq nc
        by auto
      obtain s' where "string_loop (ch q) in_comment was s1 = Inr s'" "sound s'"
          "stdout s' = stdout s1 @ b'" "pending s' = rest"
        using "3.IH"(1) [OF nq True s1(2) s1(3) b' nc'] by auto
      then show ?thesis
        using s1 body True by (simp add: string_loop.simps [of "ch q" in_comment was s])
    next
      case False
      obtain b' where b': "literal_span q (y # ys) = Some (b', rest)" and body: "body = x # b'"
        using "3.prems"(3) nq False by auto
      have nc: "\<not> (in_comment \<and> x = CHR ''*'' \<and> take 1 (y # ys) = ''/'')"
        and nc': "in_comment \<longrightarrow> \<not> sublist ''*/'' b'"
      proof -
        have "take 1 (y # ys) = take 1 b'"
          using b' by (rule literal_span_take)
        then show "\<not> (in_comment \<and> x = CHR ''*'' \<and> take 1 (y # ys) = ''/'')"
          using "3.prems"(4) body no_close_Cons [of x b'] by auto
        show "in_comment \<longrightarrow> \<not> sublist ''*/'' b'"
          using "3.prems"(4) body no_close_Cons [of x b'] by auto
      qed
      obtain s1 where s1: "string_body (ch q) in_comment was s = Continue s1" "sound s1"
          "pending s1 = y # ys" "stdout s1 = stdout s @ [x]"
        using string_body_plain [of s x "y # ys" q in_comment was] "3.prems"(1) p False nq nc
        by auto
      obtain s' where "string_loop (ch q) in_comment was s1 = Inr s'" "sound s'"
          "stdout s' = stdout s1 @ b'" "pending s' = rest"
        using "3.IH"(2) [OF nq False s1(2) s1(3) b' nc'] by auto
      then show ?thesis
        using s1 body by (simp add: string_loop.simps [of "ch q" in_comment was s])
    qed
  qed
qed

lemma string_loop_Exit:
  "string_body quote in_comment was s = Exit r \<Longrightarrow> string_loop quote in_comment was s = r"
  by (simp add: string_loop.simps [of quote in_comment was s])

lemma string_loop_Continue:
  "string_body quote in_comment was s = Continue s1 \<Longrightarrow>
     string_loop quote in_comment was s = string_loop quote in_comment was s1"
  by (simp add: string_loop.simps [of quote in_comment was s])

lemma string_loop_unterminated:
  "sound s \<Longrightarrow> pending s = xs \<Longrightarrow> literal_span q xs = None \<Longrightarrow>
     \<exists>s'. string_loop (ch q) False was s = Inl (error s' ''unterminated string literal.'') \<and>
       line_nr s' = was \<and> stdout s' = stdout s @ xs"
proof (induction q xs arbitrary: s rule: literal_span.induct)
  case (1 q)
  obtain s' where "string_body (ch q) False was s =
      Exit (Inl (error s' ''unterminated string literal.''))"
      "line_nr s' = was" "stdout s' = stdout s @ pending s"
    using string_body_end [of s q was] 1 by blast
  then show ?case
    using 1 by (intro exI [of _ s']) (simp add: string_loop_Exit)
next
  case (2 q x)
  then have nq: "x \<noteq> q" by (auto split: if_splits)
  show ?case
  proof (cases "x = CHR 0x5C")
    case True
    obtain s' where "string_body (ch q) False was s =
        Exit (Inl (error s' ''unterminated string literal.''))"
        "line_nr s' = was" "stdout s' = stdout s @ pending s"
      using string_body_end [of s q was] 2 nq True by blast
    then show ?thesis
      using 2 by (intro exI [of _ s']) (simp add: string_loop_Exit)
  next
    case False
    obtain s1 where s1: "string_body (ch q) False was s = Continue s1" "sound s1"
        "pending s1 = []" "stdout s1 = stdout s @ [x]"
      using string_body_plain [of s x "[]" q False was] 2 nq False by auto
    obtain s' where "string_body (ch q) False was s1 =
        Exit (Inl (error s' ''unterminated string literal.''))"
        "line_nr s' = was" "stdout s' = stdout s1 @ pending s1"
      using string_body_end [of s1 q was] s1 by blast
    then show ?thesis
      using s1 by (intro exI [of _ s']) (simp add: string_loop_Exit string_loop_Continue)
  qed
next
  case (3 q x y ys)
  note p = "3.prems"(2)
  have nq: "x \<noteq> q" using "3.prems"(3) by (auto split: if_splits)
  show ?case
  proof (cases "x = CHR 0x5C")
    case True
    have n: "literal_span q ys = None" using "3.prems"(3) nq True by simp
    obtain s1 where s1: "string_body (ch q) False was s = Continue s1" "sound s1"
        "pending s1 = ys" "stdout s1 = stdout s @ [CHR 0x5C, y]"
      using string_body_escape [of s y ys q False was] "3.prems"(1) p True nq by auto
    obtain s' where "string_loop (ch q) False was s1 =
        Inl (error s' ''unterminated string literal.'')" "line_nr s' = was"
        "stdout s' = stdout s1 @ ys"
      using "3.IH"(1) [OF nq True s1(2) s1(3) n] by auto
    then show ?thesis
      using s1 True by (intro exI [of _ s']) (simp add: string_loop_Continue)
  next
    case False
    have n: "literal_span q (y # ys) = None" using "3.prems"(3) nq False by simp
    obtain s1 where s1: "string_body (ch q) False was s = Continue s1" "sound s1"
        "pending s1 = y # ys" "stdout s1 = stdout s @ [x]"
      using string_body_plain [of s x "y # ys" q False was] "3.prems"(1) p False nq by auto
    obtain s' where "string_loop (ch q) False was s1 =
        Inl (error s' ''unterminated string literal.'')" "line_nr s' = was"
        "stdout s' = stdout s1 @ (y # ys)"
      using "3.IH"(2) [OF nq False s1(2) s1(3) n] by auto
    then show ?thesis
      using s1 by (intro exI [of _ s']) (simp add: string_loop_Continue)
  qed
qed

lemma error_line: "line_nr s' = line_nr s \<Longrightarrow> fst (error s' message) = fst (error s message)"
  by (simp add: error_def)

text \<open>
  Claim C5: \<^verbatim>\<open>string\<close> reads and echoes the characters up to and including the first
  occurrence of its quote that is not escaped, and returns there; a backslash escapes the
  character behind it, be it a backslash or the quote. Within a pattern
  (\<^verbatim>\<open>in_comment\<close>) this holds for a literal that has no star directly before a slash,
  which \<^verbatim>\<open>string\<close> rejects there. When no such quote comes, \<^verbatim>\<open>string\<close> echoes the
  input to its end and reports an unterminated literal at the line it was entered on.
\<close>

theorem string_skips_literal:
  assumes "sound s"
  shows "(literal_span q (pending s) = Some (body, rest) \<and>
            (in_comment \<longrightarrow> \<not> sublist ''*/'' body) \<longrightarrow>
          (\<exists>s'. string (ch q) in_comment s = Inr s' \<and> stdout s' = stdout s @ body \<and>
             pending s' = rest)) \<and>
         (literal_span q (pending s) = None \<longrightarrow>
          outcome (string (ch q) False s) =
            Inl (fst (error s ''unterminated string literal.''), stdout s @ pending s))"
proof -
  have "\<exists>s'. string (ch q) in_comment s = Inr s' \<and> stdout s' = stdout s @ body \<and>
      pending s' = rest"
    if h1: "literal_span q (pending s) = Some (body, rest)"
      and h2: "in_comment \<longrightarrow> \<not> sublist ''*/'' body"
  proof -
    obtain s' where "string_loop (ch q) in_comment (line_nr s) s = Inr s'"
        "stdout s' = stdout s @ body" "pending s' = rest"
      using string_loop_returns [OF assms refl h1 h2, of "line_nr s"] by blast
    then show ?thesis
      by (intro exI [of _ s']) (simp add: string_def)
  qed
  moreover have "outcome (string (ch q) False s) =
      Inl (fst (error s ''unterminated string literal.''), stdout s @ pending s)"
    if h: "literal_span q (pending s) = None"
  proof -
    obtain s' where "string_loop (ch q) False (line_nr s) s =
        Inl (error s' ''unterminated string literal.'')" "line_nr s' = line_nr s"
        "stdout s' = stdout s @ pending s"
      using string_loop_unterminated [OF assms refl h, of "line_nr s"] by blast
    then show ?thesis
      using error_line [of s' s "''unterminated string literal.''"] by (simp add: string_def)
  qed
  ultimately show ?thesis by blast
qed

theorem string_skips_literal_witness:
  \<open>literal_span (CHR 0x22) ([CHR ''a'', CHR 0x5C, CHR 0x22, CHR 0x5C, CHR 0x5C, CHR 0x22, CHR ''c'']) =
     Some ([CHR ''a'', CHR 0x5C, CHR 0x22, CHR 0x5C, CHR 0x5C, CHR 0x22], ''c'') \<and>
   (\<exists>s'. string (ch (CHR 0x22)) True
          (initial [CHR ''a'', CHR 0x5C, CHR 0x22, CHR 0x5C, CHR 0x5C, CHR 0x22, CHR ''c'']) = Inr s' \<and>
      stdout s' = [CHR ''a'', CHR 0x5C, CHR 0x22, CHR 0x5C, CHR 0x5C, CHR 0x22] \<and> pending s' = ''c'') \<and>
   literal_span (CHR 0x22) [CHR ''a'', CHR 0x5C, CHR 0x22] = None \<and>
   outcome (string (ch (CHR 0x22)) False ((initial [CHR ''a'', CHR 0x5C, CHR 0x22])\<lparr>line_nr := 7\<rparr>)) =
     Inl (At_line 7 ''unterminated string literal.'', [CHR ''a'', CHR 0x5C, CHR 0x22])\<close>
proof -
  let ?t = "[CHR ''a'', CHR 0x5C, CHR 0x22, CHR 0x5C, CHR 0x5C, CHR 0x22, CHR ''c'']"
  let ?u = "[CHR ''a'', CHR 0x5C, CHR 0x22]"
  have s: "sound (initial ?t)" "sound ((initial ?u)\<lparr>line_nr := 7\<rparr>)"
    by (simp_all add: initial_def sound_def)
  have p: "pending (initial ?t) = ?t" "pending (initial ?u) = ?u"
    by (simp_all add: initial_def pending_def)
  have l: "literal_span (CHR 0x22) ?t =
      Some ([CHR ''a'', CHR 0x5C, CHR 0x22, CHR 0x5C, CHR 0x5C, CHR 0x22], ''c'')"
    "literal_span (CHR 0x22) ?u = None"
    by simp_all
  have nc: "\<not> sublist ''*/'' [CHR ''a'', CHR 0x5C, CHR 0x22, CHR 0x5C, CHR 0x5C, CHR 0x22]"
    by (simp add: sublist_Cons_right)
  have a: "\<exists>s'. string (ch (CHR 0x22)) True (initial ?t) = Inr s' \<and>
      stdout s' = stdout (initial ?t) @ [CHR ''a'', CHR 0x5C, CHR 0x22, CHR 0x5C, CHR 0x5C, CHR 0x22] \<and>
      pending s' = ''c''"
    using string_skips_literal [OF s(1), of "CHR 0x22"
        "[CHR ''a'', CHR 0x5C, CHR 0x22, CHR 0x5C, CHR 0x5C, CHR 0x22]" "''c''" True]
    by (simp add: p l nc)
  have b: "outcome (string (ch (CHR 0x22)) False ((initial ?u)\<lparr>line_nr := 7\<rparr>)) =
      Inl (fst (error ((initial ?u)\<lparr>line_nr := 7\<rparr>) ''unterminated string literal.''),
        stdout ((initial ?u)\<lparr>line_nr := 7\<rparr>) @ ?u)"
    using string_skips_literal [OF s(2), of "CHR 0x22" "[]" "[]" False]
    by (simp add: p l)
  show ?thesis
    using a b l by (simp add: initial_def error_def)
qed


subsection \<open>An escaped star before a slash\<close>

text \<open>
  Where a text stands in a literal. \<open>unclosed q xs\<close> says that the text \<open>xs\<close>, read
  from behind the opening quote \<open>q\<close> of a string literal, is a whole number of rounds of
  the loop of \<^verbatim>\<open>string\<close>, none of which ends the literal: each round is one character
  other than the quote, or a backslash and the character behind it. With \<^verbatim>\<open>]\<close> for \<open>q\<close>
  these are the rounds of the loop of \<^verbatim>\<open>regexp\<close> that reads a character class.
  \<open>regexp_mode m xs\<close> follows \<^verbatim>\<open>regexp\<close> through the text \<open>xs\<close> behind the opening
  slash: it is \<open>Some True\<close> when the text ends inside a character class, \<open>Some False\<close>
  when it ends outside of one, and \<open>None\<close> when the text holds the slash that ends the
  literal or ends between a backslash and the character behind it; \<open>m\<close> says whether the
  text begins inside a character class. \<open>reads t rest s s'\<close> says that from the state
  \<open>s\<close> to the state \<open>s'\<close> the scanner has read and echoed the text \<open>t\<close> and counted
  its lines, and that \<open>rest\<close> is still to be read.
\<close>

fun unclosed :: "char \<Rightarrow> char list \<Rightarrow> bool" where
  "unclosed q [] = True"
| "unclosed q (x # xs) =
     (if x = CHR 0x5C then (case xs of [] \<Rightarrow> False | y # ys \<Rightarrow> unclosed q ys)
      else x \<noteq> q \<and> unclosed q xs)"

fun regexp_mode :: "bool \<Rightarrow> char list \<Rightarrow> bool option" where
  "regexp_mode m [] = Some m"
| "regexp_mode m (x # xs) =
     (if x = CHR 0x5C then (case xs of [] \<Rightarrow> None | y # ys \<Rightarrow> regexp_mode m ys)
      else if m then regexp_mode (x \<noteq> CHR '']'') xs
      else if x = CHR ''/'' then None
      else regexp_mode (x = CHR ''['') xs)"

fun flag_after :: "bool \<Rightarrow> char list \<Rightarrow> bool" where
  "flag_after b [] = b"
| "flag_after b (x # xs) = flag_after (x = CHR 0x0D) xs"

definition reads :: "char list \<Rightarrow> char list \<Rightarrow> state \<Rightarrow> state \<Rightarrow> bool" where
  "reads t rest s s' \<longleftrightarrow>
     sound s' \<and> pending s' = rest \<and> stdout s' = stdout s @ t \<and>
     line_nr s' = line_after (cr s) (line_nr s) t \<and> cr s' = flag_after (cr s) t"

lemma line_after_append:
  "line_after b n (t @ u) = line_after (flag_after b t) (line_after b n t) u"
  by (induction t arbitrary: b n) simp_all

lemma flag_after_append: "flag_after b (t @ u) = flag_after (flag_after b t) u"
  by (induction t arbitrary: b) simp_all

lemma reads_nil: "sound s \<Longrightarrow> pending s = rest \<Longrightarrow> reads [] rest s s"
  by (simp add: reads_def)

lemma reads_trans: "reads t r1 s s1 \<Longrightarrow> reads u r2 s1 s2 \<Longrightarrow> reads (t @ u) r2 s s2"
  by (simp add: reads_def line_after_append flag_after_append)

lemma reads_advance:
  assumes "sound s" and "pending s = x # xs"
  shows "reads [x] xs s (advance True x xs s)"
proof -
  have "CHR 0x00 \<notin> set xs" using sound_pending [OF assms(1)] assms(2) by simp
  then show ?thesis by (simp add: reads_def)
qed

lemma reads_peeked:
  assumes "reads t (y # ys) s s'"
  shows "reads t (y # ys) s (s'\<lparr>stdin := ys, preview := ch y\<rparr>)"
proof -
  have "sound s'" "pending s' = y # ys" using assms by (simp_all add: reads_def)
  then have "y \<noteq> CHR 0x00" "CHR 0x00 \<notin> set ys" using sound_pending [of s'] by auto
  then show ?thesis using assms by (simp add: reads_def)
qed

lemma reads_ended:
  assumes "reads t [] s s'"
  shows "reads t [] s (s'\<lparr>preview := EOF\<rparr>)"
proof -
  have "stdin s' = []" using assms by (simp add: reads_def pending_nil_stdin)
  then show ?thesis using assms by (simp add: reads_def)
qed

lemma star_slash_reads:
  assumes "reads t rest s s1" and "\<not> (guard \<and> x = CHR ''*'' \<and> take 1 rest = ''/'')"
  shows "\<exists>s'. star_slash guard (ch x) s1 = (False, s') \<and> reads t rest s s'"
proof (cases "guard \<and> x = CHR ''*''")
  case False
  then show ?thesis using assms(1) by (auto simp add: star_slash_def)
next
  case True
  have s1: "sound s1" "pending s1 = rest" using assms(1) by (simp_all add: reads_def)
  show ?thesis
  proof (cases rest)
    case Nil
    then have "star_slash guard (ch x) s1 = (False, s1\<lparr>preview := EOF\<rparr>)"
      using True s1 by (simp add: star_slash_def peek_sound)
    then show ?thesis using reads_ended [of t s s1] assms(1) Nil by simp
  next
    case (Cons y ys)
    then have "y \<noteq> CHR ''/''" using assms(2) True by simp
    then have "star_slash guard (ch x) s1 = (False, s1\<lparr>stdin := ys, preview := ch y\<rparr>)"
      using True s1 Cons by (simp add: star_slash_def peek_sound)
    then show ?thesis using reads_peeked [of t y ys s s1] assms(1) Cons by simp
  qed
qed

lemma string_round_plain:
  assumes "sound s" and "pending s = x # xs" and "x \<noteq> q" and "x \<noteq> CHR 0x5C"
    and "\<not> (ic \<and> x = CHR ''*'' \<and> take 1 xs = ''/'')"
  shows "\<exists>s'. string_body (ch q) ic was s = Continue s' \<and> reads [x] xs s s'"
proof -
  obtain s' where s': "star_slash ic (ch x) (advance True x xs s) = (False, s')"
      "reads [x] xs s s'"
    using star_slash_reads [OF reads_advance [OF assms(1,2)] assms(5)] by blast
  have "string_body (ch q) ic was s = Continue s'"
    using assms(1-4) s'(1) by (simp add: string_body_def get_sound)
  then show ?thesis using s'(2) by blast
qed

lemma string_round_escape:
  assumes "sound s" and "pending s = CHR 0x5C # y # ys" and "q \<noteq> CHR 0x5C"
    and "\<not> (ic \<and> y = CHR ''*'' \<and> take 1 ys = ''/'')"
  shows "\<exists>s'. string_body (ch q) ic was s = Continue s' \<and> reads [CHR 0x5C, y] ys s s'"
proof -
  let ?s1 = "advance True (CHR 0x5C) (y # ys) s"
  have r1: "reads [CHR 0x5C] (y # ys) s ?s1" using assms(1,2) by (rule reads_advance)
  then have s1: "sound ?s1" "pending ?s1 = y # ys" by (simp_all add: reads_def)
  have "reads [y] ys ?s1 (advance True y ys ?s1)" using s1 by (rule reads_advance)
  then have "reads ([CHR 0x5C] @ [y]) ys s (advance True y ys ?s1)"
    using r1 by (rule_tac reads_trans)
  then obtain s' where s': "star_slash ic (ch y) (advance True y ys ?s1) = (False, s')"
      "reads [CHR 0x5C, y] ys s s'"
    using star_slash_reads [of "[CHR 0x5C, y]" ys s "advance True y ys ?s1" ic y] assms(4)
    by auto
  have "string_body (ch q) ic was s = Continue s'"
    using assms(1-3) s1 s'(1) by (simp add: string_body_def get_sound)
  then show ?thesis using s'(2) by blast
qed

lemma take1_append: "take 1 (ys @ take 1 rest) = take 1 (ys @ rest)"
  by (cases ys) simp_all

lemma string_inside:
  "sound s \<Longrightarrow> pending s = pre @ rest \<Longrightarrow> unclosed q pre \<Longrightarrow> q \<noteq> CHR 0x5C \<Longrightarrow>
     (ic \<longrightarrow> \<not> sublist ''*/'' (pre @ take 1 rest)) \<Longrightarrow>
     \<exists>s'. string_loop (ch q) ic was s = string_loop (ch q) ic was s' \<and> reads pre rest s s'"
proof (induction q pre arbitrary: s rule: unclosed.induct)
  case (1 q)
  then show ?case using reads_nil [of s rest] by auto
next
  case (2 q x xs)
  show ?case
  proof (cases "x = CHR 0x5C")
    case True
    then obtain y ys where xs: "xs = y # ys" and u: "unclosed q ys"
      using "2.prems"(3) by (cases xs) auto
    have p: "pending s = CHR 0x5C # y # (ys @ rest)" using "2.prems"(2) True xs by simp
    have nc: "\<not> (ic \<and> y = CHR ''*'' \<and> take 1 (ys @ rest) = ''/'')"
      and nc': "ic \<longrightarrow> \<not> sublist ''*/'' (ys @ take 1 rest)"
      using "2.prems"(5) xs no_close_Cons [of x "y # ys @ take 1 rest"]
        no_close_Cons [of y "ys @ take 1 rest"] take1_append [of ys rest]
      by auto
    obtain s1 where s1: "string_body (ch q) ic was s = Continue s1"
        "reads [CHR 0x5C, y] (ys @ rest) s s1"
      using string_round_escape [OF "2.prems"(1) p "2.prems"(4) nc] by blast
    have s1': "sound s1" "pending s1 = ys @ rest" using s1(2) by (simp_all add: reads_def)
    obtain s' where s': "string_loop (ch q) ic was s1 = string_loop (ch q) ic was s'"
        "reads ys rest s1 s'"
      using "2.IH"(1) [OF True xs s1' u "2.prems"(4) nc'] by blast
    have "reads ([CHR 0x5C, y] @ ys) rest s s'" using s1(2) s'(2) by (rule reads_trans)
    then show ?thesis
      using s1(1) s'(1) True xs by (auto simp add: string_loop.simps [of "ch q" ic was s])
  next
    case False
    then have x: "x \<noteq> q" and u: "unclosed q xs" using "2.prems"(3) by simp_all
    have p: "pending s = x # (xs @ rest)" using "2.prems"(2) by simp
    have nc: "\<not> (ic \<and> x = CHR ''*'' \<and> take 1 (xs @ rest) = ''/'')"
      and nc': "ic \<longrightarrow> \<not> sublist ''*/'' (xs @ take 1 rest)"
      using "2.prems"(5) no_close_Cons [of x "xs @ take 1 rest"] take1_append [of xs rest]
      by auto
    obtain s1 where s1: "string_body (ch q) ic was s = Continue s1"
        "reads [x] (xs @ rest) s s1"
      using string_round_plain [OF "2.prems"(1) p x False nc] by blast
    have s1': "sound s1" "pending s1 = xs @ rest" using s1(2) by (simp_all add: reads_def)
    obtain s' where s': "string_loop (ch q) ic was s1 = string_loop (ch q) ic was s'"
        "reads xs rest s1 s'"
      using "2.IH"(2) [OF False s1' u "2.prems"(4) nc'] by blast
    have "reads ([x] @ xs) rest s s'" using s1(2) s'(2) by (rule reads_trans)
    then show ?thesis
      using s1(1) s'(1) by (auto simp add: string_loop.simps [of "ch q" ic was s])
  qed
qed


lemma set_round_plain:
  assumes "sound s" and "pending s = x # xs" and "x \<noteq> CHR '']''" and "x \<noteq> CHR 0x5C"
    and "\<not> (ic \<and> x = CHR ''*'' \<and> take 1 xs = ''/'')"
  shows "\<exists>s'. regexp_set_body ic s = Continue s' \<and> reads [x] xs s s'"
proof -
  obtain s' where s': "star_slash ic (ch x) (advance True x xs s) = (False, s')"
      "reads [x] xs s s'"
    using star_slash_reads [OF reads_advance [OF assms(1,2)] assms(5)] by blast
  have "regexp_set_body ic s = Continue s'"
    using assms(1-4) s'(1) by (simp add: regexp_set_body_def get_sound)
  then show ?thesis using s'(2) by blast
qed

lemma set_round_escape:
  assumes "sound s" and "pending s = CHR 0x5C # y # ys"
    and "\<not> (ic \<and> y = CHR ''*'' \<and> take 1 ys = ''/'')"
  shows "\<exists>s'. regexp_set_body ic s = Continue s' \<and> reads [CHR 0x5C, y] ys s s'"
proof -
  let ?s1 = "advance True (CHR 0x5C) (y # ys) s"
  have r1: "reads [CHR 0x5C] (y # ys) s ?s1" using assms(1,2) by (rule reads_advance)
  then have s1: "sound ?s1" "pending ?s1 = y # ys" by (simp_all add: reads_def)
  have "reads [y] ys ?s1 (advance True y ys ?s1)" using s1 by (rule reads_advance)
  then have "reads ([CHR 0x5C] @ [y]) ys s (advance True y ys ?s1)"
    using r1 by (rule_tac reads_trans)
  then obtain s' where s': "star_slash ic (ch y) (advance True y ys ?s1) = (False, s')"
      "reads [CHR 0x5C, y] ys s s'"
    using star_slash_reads [of "[CHR 0x5C, y]" ys s "advance True y ys ?s1" ic y] assms(3)
    by auto
  have "regexp_set_body ic s = Continue s'"
    using assms(1,2) s1 s'(1) by (simp add: regexp_set_body_def get_sound)
  then show ?thesis using s'(2) by blast
qed

lemma set_inside:
  "sound s \<Longrightarrow> pending s = cls @ rest \<Longrightarrow> unclosed q cls \<Longrightarrow> q = CHR '']'' \<Longrightarrow>
     (ic \<longrightarrow> \<not> sublist ''*/'' (cls @ take 1 rest)) \<Longrightarrow>
     \<exists>s'. regexp_set ic s = regexp_set ic s' \<and> reads cls rest s s'"
proof (induction q cls arbitrary: s rule: unclosed.induct)
  case (1 q)
  then show ?case using reads_nil [of s rest] by auto
next
  case (2 q x xs)
  show ?case
  proof (cases "x = CHR 0x5C")
    case True
    then obtain y ys where xs: "xs = y # ys" and u: "unclosed q ys"
      using "2.prems"(3) by (cases xs) auto
    have p: "pending s = CHR 0x5C # y # (ys @ rest)" using "2.prems"(2) True xs by simp
    have nc: "\<not> (ic \<and> y = CHR ''*'' \<and> take 1 (ys @ rest) = ''/'')"
      and nc': "ic \<longrightarrow> \<not> sublist ''*/'' (ys @ take 1 rest)"
      using "2.prems"(5) xs no_close_Cons [of x "y # ys @ take 1 rest"]
        no_close_Cons [of y "ys @ take 1 rest"] take1_append [of ys rest]
      by auto
    obtain s1 where s1: "regexp_set_body ic s = Continue s1"
        "reads [CHR 0x5C, y] (ys @ rest) s s1"
      using set_round_escape [OF "2.prems"(1) p nc] by blast
    have s1': "sound s1" "pending s1 = ys @ rest" using s1(2) by (simp_all add: reads_def)
    obtain s' where s': "regexp_set ic s1 = regexp_set ic s'" "reads ys rest s1 s'"
      using "2.IH"(1) [OF True xs s1' u "2.prems"(4) nc'] by blast
    have "reads ([CHR 0x5C, y] @ ys) rest s s'" using s1(2) s'(2) by (rule reads_trans)
    then show ?thesis
      using s1(1) s'(1) True xs by (auto simp add: regexp_set.simps [of ic s])
  next
    case False
    then have x: "x \<noteq> CHR '']''" and u: "unclosed q xs"
      using "2.prems"(3,4) by simp_all
    have p: "pending s = x # (xs @ rest)" using "2.prems"(2) by simp
    have nc: "\<not> (ic \<and> x = CHR ''*'' \<and> take 1 (xs @ rest) = ''/'')"
      and nc': "ic \<longrightarrow> \<not> sublist ''*/'' (xs @ take 1 rest)"
      using "2.prems"(5) no_close_Cons [of x "xs @ take 1 rest"] take1_append [of xs rest]
      by auto
    obtain s1 where s1: "regexp_set_body ic s = Continue s1" "reads [x] (xs @ rest) s s1"
      using set_round_plain [OF "2.prems"(1) p x False nc] by blast
    have s1': "sound s1" "pending s1 = xs @ rest" using s1(2) by (simp_all add: reads_def)
    obtain s' where s': "regexp_set ic s1 = regexp_set ic s'" "reads xs rest s1 s'"
      using "2.IH"(2) [OF False s1' u "2.prems"(4) nc'] by blast
    have "reads ([x] @ xs) rest s s'" using s1(2) s'(2) by (rule reads_trans)
    then show ?thesis
      using s1(1) s'(1) by (auto simp add: regexp_set.simps [of ic s])
  qed
qed

lemma set_complete:
  assumes "sound s" and "pending s = cls @ CHR '']'' # rest" and "unclosed (CHR '']'') cls"
    and "ic \<longrightarrow> \<not> sublist ''*/'' cls"
  shows "\<exists>s'. regexp_set ic s = Inr s' \<and> reads (cls @ '']'') rest s s'"
proof -
  have nc: "ic \<longrightarrow> \<not> sublist ''*/'' (cls @ take 1 (CHR '']'' # rest))"
    using assms(4)
    by (auto simp add: sublist_append sublist_Cons_right suffix_def prefix_def
        Cons_eq_append_conv)
  obtain s1 where s1: "regexp_set ic s = regexp_set ic s1" "reads cls (CHR '']'' # rest) s s1"
    using set_inside [OF assms(1,2,3) refl nc] by blast
  have s1': "sound s1" "pending s1 = CHR '']'' # rest" using s1(2) by (simp_all add: reads_def)
  have "regexp_set_body ic s1 = Exit (Inr (advance True (CHR '']'') rest s1))"
    using s1' by (simp add: regexp_set_body_def get_sound)
  then have "regexp_set ic s1 = Inr (advance True (CHR '']'') rest s1)"
    by (simp add: regexp_set.simps [of ic s1])
  moreover have "reads (cls @ '']'') rest s (advance True (CHR '']'') rest s1)"
    using s1(2) reads_advance [OF s1'] by (rule reads_trans)
  ultimately show ?thesis using s1(1) by auto
qed


lemma regexp_round_plain:
  assumes "sound s" and "pending s = x # xs"
    and "x \<noteq> CHR ''[''" and "x \<noteq> CHR ''/''" and "x \<noteq> CHR 0x5C"
    and "\<not> (ic \<and> x = CHR ''*'' \<and> take 1 xs = ''/'')"
  shows "\<exists>s'. regexp_body ic was s = Continue s' \<and> reads [x] xs s s'"
proof -
  obtain s' where s': "star_slash ic (ch x) (advance True x xs s) = (False, s')"
      "reads [x] xs s s'"
    using star_slash_reads [OF reads_advance [OF assms(1,2)] assms(6)] by blast
  have "regexp_body ic was s = Continue s'"
    using assms(1-5) s'(1) by (simp add: regexp_body_def regexp_tail_def get_sound)
  then show ?thesis using s'(2) by blast
qed

lemma regexp_round_escape:
  assumes "sound s" and "pending s = CHR 0x5C # y # ys"
    and "\<not> (ic \<and> y = CHR ''*'' \<and> take 1 ys = ''/'')"
  shows "\<exists>s'. regexp_body ic was s = Continue s' \<and> reads [CHR 0x5C, y] ys s s'"
proof -
  let ?s1 = "advance True (CHR 0x5C) (y # ys) s"
  have r1: "reads [CHR 0x5C] (y # ys) s ?s1" using assms(1,2) by (rule reads_advance)
  then have s1: "sound ?s1" "pending ?s1 = y # ys" by (simp_all add: reads_def)
  have "reads [y] ys ?s1 (advance True y ys ?s1)" using s1 by (rule reads_advance)
  then have "reads ([CHR 0x5C] @ [y]) ys s (advance True y ys ?s1)"
    using r1 by (rule_tac reads_trans)
  then obtain s' where s': "star_slash ic (ch y) (advance True y ys ?s1) = (False, s')"
      "reads [CHR 0x5C, y] ys s s'"
    using star_slash_reads [of "[CHR 0x5C, y]" ys s "advance True y ys ?s1" ic y] assms(3)
    by auto
  have "regexp_body ic was s = Continue s'"
    using assms(1,2) s1 s'(1) by (simp add: regexp_body_def regexp_tail_def get_sound)
  then show ?thesis using s'(2) by blast
qed

lemma regexp_round_class:
  assumes "sound s" and "pending s = CHR ''['' # cls @ CHR '']'' # rest"
    and "unclosed (CHR '']'') cls" and "ic \<longrightarrow> \<not> sublist ''*/'' cls"
  shows "\<exists>s'. regexp_body ic was s = Continue s' \<and> reads (CHR ''['' # cls @ '']'') rest s s'"
proof -
  let ?s1 = "advance True (CHR ''['') (cls @ CHR '']'' # rest) s"
  have r1: "reads ''['' (cls @ CHR '']'' # rest) s ?s1" using assms(1,2) by (rule reads_advance)
  then have s1: "sound ?s1" "pending ?s1 = cls @ CHR '']'' # rest" by (simp_all add: reads_def)
  obtain s2 where s2: "regexp_set ic ?s1 = Inr s2" "reads (cls @ '']'') rest ?s1 s2"
    using set_complete [OF s1 assms(3,4)] by blast
  have "regexp_body ic was s = Continue s2"
    using assms(1,2) s2(1)
    by (simp add: regexp_body_def regexp_tail_def star_slash_def get_sound)
  moreover have "reads (''['' @ cls @ '']'') rest s s2" using r1 s2(2) by (rule reads_trans)
  ultimately show ?thesis by auto
qed

lemma unclosed_Cons:
  "x \<noteq> CHR 0x5C \<Longrightarrow> unclosed q (x # xs) \<longleftrightarrow> x \<noteq> q \<and> unclosed q xs"
  by simp

lemma mode_split:
  "regexp_mode m xs = Some m' \<Longrightarrow> m \<Longrightarrow>
     (m' \<and> unclosed (CHR '']'') xs) \<or>
     (\<exists>cls more. xs = cls @ CHR '']'' # more \<and> unclosed (CHR '']'') cls \<and>
        regexp_mode False more = Some m')"
proof (induction m xs arbitrary: m' rule: regexp_mode.induct)
  case (1 m)
  then show ?case by simp
next
  case (2 m x xs)
  show ?case
  proof (cases "x = CHR 0x5C")
    case True
    then obtain y ys where xs: "xs = y # ys" and r: "regexp_mode m ys = Some m'"
      using "2.prems"(1) by (cases xs) auto
    from "2.IH"(1) [OF True xs r "2.prems"(2)] show ?thesis
    proof
      assume "m' \<and> unclosed (CHR '']'') ys"
      then show ?thesis using True xs by simp
    next
      assume "\<exists>cls more. ys = cls @ CHR '']'' # more \<and> unclosed (CHR '']'') cls \<and>
        regexp_mode False more = Some m'"
      then obtain cls more where "ys = cls @ CHR '']'' # more" "unclosed (CHR '']'') cls"
          "regexp_mode False more = Some m'"
        by blast
      then have "x # xs = (x # y # cls) @ CHR '']'' # more \<and>
          unclosed (CHR '']'') (x # y # cls) \<and> regexp_mode False more = Some m'"
        using True xs by simp
      then show ?thesis by blast
    qed
  next
    case False
    show ?thesis
    proof (cases "x = CHR '']''")
      case True
      then have "x # xs = [] @ CHR '']'' # xs \<and> unclosed (CHR '']'') [] \<and>
          regexp_mode False xs = Some m'"
        using "2.prems" False by simp
      then show ?thesis by blast
    next
      case nb: False
      then have r: "regexp_mode True xs = Some m'" using "2.prems" False by simp
      have m: "m" "x \<noteq> CHR '']'' = True" using "2.prems"(2) nb by simp_all
      from "2.IH"(2) [OF False "2.prems"(2)] r m nb
      have "(m' \<and> unclosed (CHR '']'') xs) \<or>
        (\<exists>cls more. xs = cls @ CHR '']'' # more \<and> unclosed (CHR '']'') cls \<and>
          regexp_mode False more = Some m')"
        by simp
      then show ?thesis
      proof
        assume "m' \<and> unclosed (CHR '']'') xs"
        then show ?thesis using False nb by simp
      next
        assume "\<exists>cls more. xs = cls @ CHR '']'' # more \<and> unclosed (CHR '']'') cls \<and>
          regexp_mode False more = Some m'"
        then obtain cls more where "xs = cls @ CHR '']'' # more" "unclosed (CHR '']'') cls"
            "regexp_mode False more = Some m'"
          by blast
        then have "x # xs = (x # cls) @ CHR '']'' # more \<and>
            unclosed (CHR '']'') (x # cls) \<and> regexp_mode False more = Some m'"
          using False nb by simp
        then show ?thesis by blast
      qed
    qed
  qed
qed


lemma no_close_part: "\<not> sublist a (u @ v @ w) \<Longrightarrow> \<not> sublist a v"
proof
  assume n: "\<not> sublist a (u @ v @ w)" and "sublist a v"
  then obtain p q where "v = p @ a @ q" by (auto simp add: sublist_def)
  then have "u @ v @ w = (u @ p) @ a @ (q @ w)" by simp
  then have "sublist a (u @ v @ w)" unfolding sublist_def by blast
  then show False using n by simp
qed

lemma regexp_inside:
  "sound s \<Longrightarrow> pending s = pre @ rest \<Longrightarrow> regexp_mode False pre = Some m \<Longrightarrow>
     (ic \<longrightarrow> \<not> sublist ''*/'' (pre @ take 1 rest)) \<Longrightarrow>
     \<exists>out cls s'. regexp_loop ic was s = regexp_loop ic was s' \<and> reads out (cls @ rest) s s' \<and>
       pre = out @ cls \<and>
       (if m then \<exists>c. cls = CHR ''['' # c \<and> unclosed (CHR '']'') c else cls = [])"
proof (induction "length pre" arbitrary: pre s rule: less_induct)
  case less
  note IH = less.hyps and prems = less.prems
  show ?case
  proof (cases pre)
    case Nil
    then have "\<not> m" using prems(3) by simp
    then have "regexp_loop ic was s = regexp_loop ic was s \<and> reads [] ([] @ rest) s s \<and>
        pre = [] @ [] \<and> (if m then \<exists>c. [] = CHR ''['' # c \<and> unclosed (CHR '']'') c else [] = [])"
      using Nil prems(1,2) by (simp add: reads_nil)
    then show ?thesis by blast
  next
    case (Cons x xs)
    have step: ?thesis
      if r: "regexp_body ic was s = Continue s1" "reads t (more @ rest) s s1"
        and pre: "pre = t @ more" and t: "t \<noteq> []"
        and mode: "regexp_mode False more = Some m"
        and nc: "ic \<longrightarrow> \<not> sublist ''*/'' (more @ take 1 rest)"
      for s1 t more
    proof -
      have s1: "sound s1" "pending s1 = more @ rest" using r(2) by (simp_all add: reads_def)
      have "length more < length pre" using pre t by simp
      then obtain out cls s' where s': "regexp_loop ic was s1 = regexp_loop ic was s'"
          "reads out (cls @ rest) s1 s'" "more = out @ cls"
          "if m then \<exists>c. cls = CHR ''['' # c \<and> unclosed (CHR '']'') c else cls = []"
        using IH [OF _ s1 mode nc] by blast
      have "regexp_loop ic was s = regexp_loop ic was s'"
        using r(1) s'(1) by (simp add: regexp_loop.simps [of ic was s])
      moreover have "reads (t @ out) (cls @ rest) s s'" using r(2) s'(2) by (rule reads_trans)
      moreover have "pre = (t @ out) @ cls" using pre s'(3) by simp
      ultimately show ?thesis using s'(4) by blast
    qed
    show ?thesis
    proof (cases "x = CHR 0x5C")
      case True
      then obtain y ys where xs: "xs = y # ys" and mode: "regexp_mode False ys = Some m"
        using prems(3) Cons by (cases xs) auto
      have p: "pending s = CHR 0x5C # y # (ys @ rest)" using prems(2) Cons True xs by simp
      have nc: "\<not> (ic \<and> y = CHR ''*'' \<and> take 1 (ys @ rest) = ''/'')"
        and nc': "ic \<longrightarrow> \<not> sublist ''*/'' (ys @ take 1 rest)"
        using prems(4) Cons xs no_close_Cons [of x "y # ys @ take 1 rest"]
          no_close_Cons [of y "ys @ take 1 rest"] take1_append [of ys rest]
        by auto
      obtain s1 where s1: "regexp_body ic was s = Continue s1"
          "reads [CHR 0x5C, y] (ys @ rest) s s1"
        using regexp_round_escape [OF prems(1) p nc] by blast
      show ?thesis
        using s1 Cons True xs mode nc' by (intro step [of s1 "[CHR 0x5C, y]" ys]) simp_all
    next
      case nb: False
      show ?thesis
      proof (cases "x = CHR ''[''")
        case True
        then have "regexp_mode True xs = Some m" using prems(3) Cons by simp
        from mode_split [OF this TrueI] show ?thesis
        proof
          assume a: "m \<and> unclosed (CHR '']'') xs"
          then have "regexp_loop ic was s = regexp_loop ic was s \<and>
              reads [] (pre @ rest) s s \<and> pre = [] @ pre \<and>
              (if m then \<exists>c. pre = CHR ''['' # c \<and> unclosed (CHR '']'') c else pre = [])"
            using prems(1,2) Cons True by (simp add: reads_nil)
          then show ?thesis by blast
        next
          assume "\<exists>cls more. xs = cls @ CHR '']'' # more \<and> unclosed (CHR '']'') cls \<and>
            regexp_mode False more = Some m"
          then obtain cls more where xs: "xs = cls @ CHR '']'' # more"
              and u: "unclosed (CHR '']'') cls" and mode: "regexp_mode False more = Some m"
            by blast
          have p: "pending s = CHR ''['' # cls @ CHR '']'' # (more @ rest)"
            using prems(2) Cons True xs by simp
          have e1: "pre @ take 1 rest = ''['' @ cls @ (CHR '']'' # more @ take 1 rest)"
            and e2: "pre @ take 1 rest = (CHR ''['' # cls @ '']'') @ (more @ take 1 rest) @ []"
            using Cons True xs by simp_all
          have nc: "ic \<longrightarrow> \<not> sublist ''*/'' cls"
            using prems(4) no_close_part [of "''*/''" "''[''" cls] unfolding e1 by blast
          have nc': "ic \<longrightarrow> \<not> sublist ''*/'' (more @ take 1 rest)"
            using prems(4) no_close_part [of "''*/''" "CHR ''['' # cls @ '']''"] unfolding e2
            by blast
          obtain s1 where s1: "regexp_body ic was s = Continue s1"
              "reads (CHR ''['' # cls @ '']'') (more @ rest) s s1"
            using regexp_round_class [OF prems(1) p u nc] by blast
          show ?thesis
            using s1 Cons True xs mode nc'
            by (intro step [of s1 "CHR ''['' # cls @ '']''" more]) simp_all
        qed
      next
        case False
        then have x: "x \<noteq> CHR ''/''" and mode: "regexp_mode False xs = Some m"
          using prems(3) Cons nb by (simp_all split: if_splits)
        have p: "pending s = x # (xs @ rest)" using prems(2) Cons by simp
        have nc: "\<not> (ic \<and> x = CHR ''*'' \<and> take 1 (xs @ rest) = ''/'')"
          and nc': "ic \<longrightarrow> \<not> sublist ''*/'' (xs @ take 1 rest)"
          using prems(4) Cons no_close_Cons [of x "xs @ take 1 rest"] take1_append [of xs rest]
          by auto
        obtain s1 where s1: "regexp_body ic was s = Continue s1" "reads [x] (xs @ rest) s s1"
          using regexp_round_plain [OF prems(1) p False x nb nc] by blast
        show ?thesis
          using s1 Cons mode nc' by (intro step [of s1 "[x]" xs]) simp_all
      qed
    qed
  qed
qed


lemma no_close_snoc:
  "\<not> sublist ''*/'' pre \<Longrightarrow> x \<noteq> CHR ''/'' \<Longrightarrow> \<not> sublist ''*/'' (pre @ [x])"
  by (auto simp add: sublist_append sublist_Cons_right prefix_Cons append_eq_Cons_conv
      Cons_eq_append_conv)

lemma string_star_slash:
  assumes "sound s" and "pending s = esc @ CHR ''*'' # CHR ''/'' # rest"
    and "esc = [] \<or> esc = [CHR 0x5C]" and "q \<noteq> CHR 0x5C" and "q \<noteq> CHR ''*''"
  shows "\<exists>s'. string_body (ch q) True was s =
             Exit (Inl (error s' ''unexpected close comment in string.'')) \<and>
           stdout s' = stdout s @ esc @ ''*'' \<and> line_nr s' = line_nr s"
proof -
  have nul: "CHR 0x00 \<notin> set rest"
    using sound_pending [OF assms(1)] assms(2) by simp
  from assms(3) show ?thesis
  proof
    assume e: "esc = []"
    let ?s' = "(advance True CHR ''*'' (CHR ''/'' # rest) s)
        \<lparr>stdin := rest, preview := ch CHR ''/''\<rparr>"
    have "string_body (ch q) True was s =
        Exit (Inl (error ?s' ''unexpected close comment in string.''))"
      using assms(1,2,4,5) e nul
      by (simp add: string_body_def star_slash_def get_sound peek_sound)
    then show ?thesis using e by (intro exI [of _ ?s']) simp
  next
    assume e: "esc = [CHR 0x5C]"
    let ?s' = "(advance True CHR ''*'' (CHR ''/'' # rest)
        (advance True (CHR 0x5C) (CHR ''*'' # CHR ''/'' # rest) s))
          \<lparr>stdin := rest, preview := ch CHR ''/''\<rparr>"
    have "string_body (ch q) True was s =
        Exit (Inl (error ?s' ''unexpected close comment in string.''))"
      using assms(1,2,4) e nul
      by (simp add: string_body_def star_slash_def get_sound peek_sound)
    then show ?thesis using e by (intro exI [of _ ?s']) simp
  qed
qed

lemma regexp_star_slash:
  assumes "sound s" and "pending s = esc @ CHR ''*'' # CHR ''/'' # rest"
    and "esc = [] \<or> esc = [CHR 0x5C]"
  shows "\<exists>s'. regexp_body True was s = Exit (Inl (error s' ''unexpected comment.'')) \<and>
           stdout s' = stdout s @ esc @ ''*'' \<and> line_nr s' = line_nr s"
proof -
  have nul: "CHR 0x00 \<notin> set rest"
    using sound_pending [OF assms(1)] assms(2) by simp
  from assms(3) show ?thesis
  proof
    assume e: "esc = []"
    let ?s' = "(advance True CHR ''*'' (CHR ''/'' # rest) s)
        \<lparr>stdin := rest, preview := ch CHR ''/''\<rparr>"
    have "regexp_body True was s = Exit (Inl (error ?s' ''unexpected comment.''))"
      using assms(1,2) e nul
      by (simp add: regexp_body_def regexp_tail_def star_slash_def get_sound peek_sound)
    then show ?thesis using e by (intro exI [of _ ?s']) simp
  next
    assume e: "esc = [CHR 0x5C]"
    let ?s' = "(advance True CHR ''*'' (CHR ''/'' # rest)
        (advance True (CHR 0x5C) (CHR ''*'' # CHR ''/'' # rest) s))
          \<lparr>stdin := rest, preview := ch CHR ''/''\<rparr>"
    have "regexp_body True was s = Exit (Inl (error ?s' ''unexpected comment.''))"
      using assms(1,2) e nul
      by (simp add: regexp_body_def regexp_tail_def star_slash_def get_sound peek_sound)
    then show ?thesis using e by (intro exI [of _ ?s']) simp
  qed
qed

lemma set_star_slash:
  assumes "sound s" and "pending s = esc @ CHR ''*'' # CHR ''/'' # rest"
    and "esc = [] \<or> esc = [CHR 0x5C]"
  shows "\<exists>s'. regexp_set_body True s =
             Exit (Inl (error s' ''unexpected close comment in regexp.'')) \<and>
           stdout s' = stdout s @ esc @ ''*'' \<and> line_nr s' = line_nr s"
proof -
  have nul: "CHR 0x00 \<notin> set rest"
    using sound_pending [OF assms(1)] assms(2) by simp
  from assms(3) show ?thesis
  proof
    assume e: "esc = []"
    let ?s' = "(advance True CHR ''*'' (CHR ''/'' # rest) s)
        \<lparr>stdin := rest, preview := ch CHR ''/''\<rparr>"
    have "regexp_set_body True s =
        Exit (Inl (error ?s' ''unexpected close comment in regexp.''))"
      using assms(1,2) e nul
      by (simp add: regexp_set_body_def star_slash_def get_sound peek_sound)
    then show ?thesis using e by (intro exI [of _ ?s']) simp
  next
    assume e: "esc = [CHR 0x5C]"
    let ?s' = "(advance True CHR ''*'' (CHR ''/'' # rest)
        (advance True (CHR 0x5C) (CHR ''*'' # CHR ''/'' # rest) s))
          \<lparr>stdin := rest, preview := ch CHR ''/''\<rparr>"
    have "regexp_set_body True s =
        Exit (Inl (error ?s' ''unexpected close comment in regexp.''))"
      using assms(1,2) e nul
      by (simp add: regexp_set_body_def star_slash_def get_sound peek_sound)
    then show ?thesis using e by (intro exI [of _ ?s']) simp
  qed
qed

text \<open>
  Claim C10: inside a string or regular expression literal that is skipped within a
  pattern (\<^verbatim>\<open>in_comment\<close> is true), a star followed by a slash is fatal wherever it
  stands in the literal, and it is so with a backslash before the star as well: the
  backslash keeps the star from ending the literal, but the star is still checked against
  the slash that follows. Let \<open>pre\<close> be what has been read of the literal so far, any
  text that has not ended the literal and holds no \<^verbatim>\<open>*/\<close> (which would have been fatal
  before), and let \<open>esc\<close> be a backslash or nothing. Then \<^verbatim>\<open>string\<close> reports
  \<^verbatim>\<open>unexpected close comment in string.\<close>, and \<^verbatim>\<open>regexp\<close> reports
  \<^verbatim>\<open>unexpected comment.\<close> outside a character class and
  \<^verbatim>\<open>unexpected close comment in regexp.\<close> inside one, each after \<open>pre\<close>, the backslash
  and the star have been echoed and with the line number that has been reached there.
\<close>

theorem escaped_close_comment:
  assumes "sound s"
    and "pending s = pre @ esc @ ''*/'' @ rest"
    and "esc = [] \<or> esc = [CHR 0x5C]"
    and "\<not> sublist ''*/'' pre"
  shows "(unclosed q pre \<and> q \<noteq> CHR 0x5C \<and> q \<noteq> CHR ''*'' \<longrightarrow>
          (\<exists>s'. string (ch q) True s =
                  Inl (error s' ''unexpected close comment in string.'') \<and>
             stdout s' = stdout s @ pre @ esc @ ''*'' \<and>
             line_nr s' = line_after (cr s) (line_nr s) pre)) \<and>
         (regexp_mode False pre = Some False \<longrightarrow>
          (\<exists>s'. regexp True s = Inl (error s' ''unexpected comment.'') \<and>
             stdout s' = stdout s @ pre @ esc @ ''*'' \<and>
             line_nr s' = line_after (cr s) (line_nr s) pre)) \<and>
         (regexp_mode False pre = Some True \<longrightarrow>
          (\<exists>s'. regexp True s = Inl (error s' ''unexpected close comment in regexp.'') \<and>
             stdout s' = stdout s @ pre @ esc @ ''*'' \<and>
             line_nr s' = line_after (cr s) (line_nr s) pre))"
proof -
  let ?tail = "esc @ CHR ''*'' # CHR ''/'' # rest"
  have p: "pending s = pre @ ?tail" using assms(2) by simp
  obtain e where e: "take 1 ?tail = [e]" "e \<noteq> CHR ''/''"
    using assms(3) by auto
  have nc: "True \<longrightarrow> \<not> sublist ''*/'' (pre @ take 1 ?tail)"
    unfolding e(1) using no_close_snoc [OF assms(4) e(2)] by simp
  have 1: "\<exists>s'. string (ch q) True s = Inl (error s' ''unexpected close comment in string.'') \<and>
      stdout s' = stdout s @ pre @ esc @ ''*'' \<and>
      line_nr s' = line_after (cr s) (line_nr s) pre"
    if h: "unclosed q pre \<and> q \<noteq> CHR 0x5C \<and> q \<noteq> CHR ''*''"
  proof -
    have u: "unclosed q pre" and q: "q \<noteq> CHR 0x5C" "q \<noteq> CHR ''*''" using h by simp_all
    obtain s1 where s1: "string_loop (ch q) True (line_nr s) s = string_loop (ch q) True (line_nr s) s1"
        "reads pre ?tail s s1"
      using string_inside [OF assms(1) p u q(1) nc] by blast
    have s1': "sound s1" "pending s1 = ?tail" "stdout s1 = stdout s @ pre"
        "line_nr s1 = line_after (cr s) (line_nr s) pre"
      using s1(2) by (simp_all add: reads_def)
    obtain s' where s': "string_body (ch q) True (line_nr s) s1 =
          Exit (Inl (error s' ''unexpected close comment in string.''))"
        "stdout s' = stdout s1 @ esc @ ''*''" "line_nr s' = line_nr s1"
      using string_star_slash [OF s1'(1,2) assms(3) q] by blast
    have "string (ch q) True s = Inl (error s' ''unexpected close comment in string.'')"
      using s1(1) s'(1) by (simp add: string_def string_loop.simps [of "ch q" True "line_nr s" s1])
    then show ?thesis using s'(2,3) s1'(3,4) by (intro exI [of _ s']) simp
  qed
  have 2: "\<exists>s'. regexp True s = Inl (error s' ''unexpected comment.'') \<and>
      stdout s' = stdout s @ pre @ esc @ ''*'' \<and>
      line_nr s' = line_after (cr s) (line_nr s) pre"
    if h: "regexp_mode False pre = Some False"
  proof -
    obtain out cls s1 where s1: "regexp_loop True (line_nr s) s = regexp_loop True (line_nr s) s1"
        "reads out (cls @ ?tail) s s1" "pre = out @ cls"
        "if False then \<exists>c. cls = CHR ''['' # c \<and> unclosed (CHR '']'') c else cls = []"
      using regexp_inside [OF assms(1) p h nc] by blast
    have cls: "cls = []" "out = pre" using s1(3,4) by simp_all
    have s1': "sound s1" "pending s1 = ?tail" "stdout s1 = stdout s @ pre"
        "line_nr s1 = line_after (cr s) (line_nr s) pre"
      using s1(2) cls by (simp_all add: reads_def)
    obtain s' where s': "regexp_body True (line_nr s) s1 =
          Exit (Inl (error s' ''unexpected comment.''))"
        "stdout s' = stdout s1 @ esc @ ''*''" "line_nr s' = line_nr s1"
      using regexp_star_slash [OF s1'(1,2) assms(3)] by blast
    have "regexp True s = Inl (error s' ''unexpected comment.'')"
      using s1(1) s'(1) by (simp add: regexp_def regexp_loop.simps [of True "line_nr s" s1])
    then show ?thesis using s'(2,3) s1'(3,4) by (intro exI [of _ s']) simp
  qed
  have 3: "\<exists>s'. regexp True s = Inl (error s' ''unexpected close comment in regexp.'') \<and>
      stdout s' = stdout s @ pre @ esc @ ''*'' \<and>
      line_nr s' = line_after (cr s) (line_nr s) pre"
    if h: "regexp_mode False pre = Some True"
  proof -
    obtain out cls s1 where s1: "regexp_loop True (line_nr s) s = regexp_loop True (line_nr s) s1"
        "reads out (cls @ ?tail) s s1" "pre = out @ cls"
        "if True then \<exists>c. cls = CHR ''['' # c \<and> unclosed (CHR '']'') c else cls = []"
      using regexp_inside [OF assms(1) p h nc] by blast
    obtain c where c: "cls = CHR ''['' # c" "unclosed (CHR '']'') c" using s1(4) by auto
    have s1': "sound s1" "pending s1 = CHR ''['' # (c @ ?tail)" using s1(2) c by (simp_all add: reads_def)
    let ?s2 = "advance True (CHR ''['') (c @ ?tail) s1"
    have r2: "reads ''['' (c @ ?tail) s1 ?s2" using s1' by (rule reads_advance)
    then have s2: "sound ?s2" "pending ?s2 = c @ ?tail" by (simp_all add: reads_def)
    have ncc: "True \<longrightarrow> \<not> sublist ''*/'' (c @ take 1 ?tail)"
    proof -
      have "pre @ [e] = (out @ ''['') @ (c @ [e]) @ []" using s1(3) c by simp
      then show ?thesis
        using nc no_close_part [of "''*/''" "out @ ''[''" "c @ [e]" "[]"] unfolding e(1) by simp
    qed
    obtain s3 where s3: "regexp_set True ?s2 = regexp_set True s3" "reads c ?tail ?s2 s3"
      using set_inside [OF s2 c(2) refl ncc] by blast
    have "reads (''['' @ c) ?tail s1 s3" using r2 s3(2) by (rule reads_trans)
    then have "reads (out @ ''['' @ c) ?tail s s3" using s1(2) by (rule_tac reads_trans)
    then have s3': "sound s3" "pending s3 = ?tail" "stdout s3 = stdout s @ pre"
        "line_nr s3 = line_after (cr s) (line_nr s) pre"
      using s1(3) c by (simp_all add: reads_def)
    obtain s' where s': "regexp_set_body True s3 =
          Exit (Inl (error s' ''unexpected close comment in regexp.''))"
        "stdout s' = stdout s3 @ esc @ ''*''" "line_nr s' = line_nr s3"
      using set_star_slash [OF s3'(1,2) assms(3)] by blast
    have "regexp_set True ?s2 = Inl (error s' ''unexpected close comment in regexp.'')"
      using s3(1) s'(1) by (simp add: regexp_set.simps [of True s3])
    then have "regexp_body True (line_nr s) s1 =
        Exit (Inl (error s' ''unexpected close comment in regexp.''))"
      using s1' by (simp add: regexp_body_def get_sound)
    then have "regexp True s = Inl (error s' ''unexpected close comment in regexp.'')"
      using s1(1) by (simp add: regexp_def regexp_loop.simps [of True "line_nr s" s1])
    then show ?thesis using s'(2,3) s3'(3,4) by (intro exI [of _ s']) simp
  qed
  show ?thesis
    by (intro conjI impI; erule 1 2 3)
qed

theorem escaped_close_comment_witness:
  "outcome (string (ch (CHR 0x22)) True
      ((initial (''a'' @ [CHR 0x0A, CHR 0x5C, CHR 0x22, CHR 0x5C] @ ''*/'' @ [CHR 0x22]))
        \<lparr>line_nr := 1\<rparr>)) =
     Inl (At_line 2 ''unexpected close comment in string.'',
       ''a'' @ [CHR 0x0A, CHR 0x5C, CHR 0x22, CHR 0x5C] @ ''*'') \<and>
   outcome (regexp True ((initial (''a[/]'' @ [CHR 0x0A, CHR 0x5C] @ ''*//''))\<lparr>line_nr := 1\<rparr>)) =
     Inl (At_line 2 ''unexpected comment.'', ''a[/]'' @ [CHR 0x0A, CHR 0x5C] @ ''*'') \<and>
   outcome (regexp True ((initial (''a[b'' @ [CHR 0x5C] @ ''*/]/''))\<lparr>line_nr := 1\<rparr>)) =
     Inl (At_line 1 ''unexpected close comment in regexp.'', ''a[b'' @ [CHR 0x5C] @ ''*'') \<and>
   outcome (string (ch (CHR 0x22)) True ((initial (''ab*/'' @ [CHR 0x22]))\<lparr>line_nr := 1\<rparr>)) =
     Inl (At_line 1 ''unexpected close comment in string.'', ''ab*'')"
proof -
  let ?p1 = "''a'' @ [CHR 0x0A, CHR 0x5C, CHR 0x22]"
  let ?s1 = "(initial (''a'' @ [CHR 0x0A, CHR 0x5C, CHR 0x22, CHR 0x5C] @ ''*/'' @ [CHR 0x22]))
    \<lparr>line_nr := 1\<rparr>"
  let ?p2 = "''a[/]'' @ [CHR 0x0A]"
  let ?s2 = "(initial (''a[/]'' @ [CHR 0x0A, CHR 0x5C] @ ''*//''))\<lparr>line_nr := 1\<rparr>"
  let ?p3 = "''a[b''"
  let ?s3 = "(initial (''a[b'' @ [CHR 0x5C] @ ''*/]/''))\<lparr>line_nr := 1\<rparr>"
  let ?p4 = "''ab''"
  let ?s4 = "(initial (''ab*/'' @ [CHR 0x22]))\<lparr>line_nr := 1\<rparr>"
  have s: "sound ?s1" "sound ?s2" "sound ?s3" "sound ?s4"
    by (simp_all add: initial_def sound_def)
  have p: "pending ?s1 = ?p1 @ [CHR 0x5C] @ ''*/'' @ [CHR 0x22]"
    "pending ?s2 = ?p2 @ [CHR 0x5C] @ ''*/'' @ ''/''"
    "pending ?s3 = ?p3 @ [CHR 0x5C] @ ''*/'' @ '']/''"
    "pending ?s4 = ?p4 @ [] @ ''*/'' @ [CHR 0x22]"
    by (simp_all add: initial_def pending_def)
  have e: "[CHR 0x5C] = [] \<or> [CHR 0x5C] = [CHR 0x5C]" "[] = [] \<or> [] = [CHR 0x5C]"
    by simp_all
  have n: "\<not> sublist ''*/'' ?p1" "\<not> sublist ''*/'' ?p2" "\<not> sublist ''*/'' ?p3"
    "\<not> sublist ''*/'' ?p4"
    by (simp_all add: sublist_Cons_right)
  have h: "unclosed (CHR 0x22) ?p1 \<and> CHR 0x22 \<noteq> CHR 0x5C \<and> CHR 0x22 \<noteq> CHR ''*''"
    "regexp_mode False ?p2 = Some False" "regexp_mode False ?p3 = Some True"
    "unclosed (CHR 0x22) ?p4 \<and> CHR 0x22 \<noteq> CHR 0x5C \<and> CHR 0x22 \<noteq> CHR ''*''"
    by simp_all
  have l: "line_after (cr ?s1) (line_nr ?s1) ?p1 = 2" "line_after (cr ?s2) (line_nr ?s2) ?p2 = 2"
    "line_after (cr ?s3) (line_nr ?s3) ?p3 = 1" "line_after (cr ?s4) (line_nr ?s4) ?p4 = 1"
    by (simp_all add: initial_def int32_def)
  have o: "stdout ?s1 = []" "stdout ?s2 = []" "stdout ?s3 = []" "stdout ?s4 = []"
    by (simp_all add: initial_def)
  obtain t1 where t1: "string (ch (CHR 0x22)) True ?s1 =
        Inl (error t1 ''unexpected close comment in string.'')"
      "stdout t1 = stdout ?s1 @ ?p1 @ [CHR 0x5C] @ ''*''"
      "line_nr t1 = line_after (cr ?s1) (line_nr ?s1) ?p1"
    using escaped_close_comment [OF s(1) p(1) e(1) n(1), of "CHR 0x22", THEN conjunct1] h(1)
    by blast
  obtain t2 where t2: "regexp True ?s2 = Inl (error t2 ''unexpected comment.'')"
      "stdout t2 = stdout ?s2 @ ?p2 @ [CHR 0x5C] @ ''*''"
      "line_nr t2 = line_after (cr ?s2) (line_nr ?s2) ?p2"
    using escaped_close_comment [OF s(2) p(2) e(1) n(2), THEN conjunct2, THEN conjunct1] h(2)
    by blast
  obtain t3 where t3: "regexp True ?s3 = Inl (error t3 ''unexpected close comment in regexp.'')"
      "stdout t3 = stdout ?s3 @ ?p3 @ [CHR 0x5C] @ ''*''"
      "line_nr t3 = line_after (cr ?s3) (line_nr ?s3) ?p3"
    using escaped_close_comment [OF s(3) p(3) e(1) n(3), THEN conjunct2, THEN conjunct2] h(3)
    by blast
  obtain t4 where t4: "string (ch (CHR 0x22)) True ?s4 =
        Inl (error t4 ''unexpected close comment in string.'')"
      "stdout t4 = stdout ?s4 @ ?p4 @ [] @ ''*''"
      "line_nr t4 = line_after (cr ?s4) (line_nr ?s4) ?p4"
    using escaped_close_comment [OF s(4) p(4) e(2) n(4), of "CHR 0x22", THEN conjunct1] h(4)
    by blast
  show ?thesis
    unfolding t1(1) t2(1) t3(1) t4(1) using t1(2,3) t2(2,3) t3(2,3) t4(2,3) unfolding l o
    by (simp add: error_def)
qed

text \<open>
  The same in whole runs: a declared pattern whose stuff, or whose condition, holds a
  literal with an escaped star before a slash.
\<close>

lemma close_comment_in_pattern:
  \<open>outcome (main [''debug''] (''/*debug "a'' @ [CHR 0x5C] @ ''*/"*/'')) =
     Inl (At_line 1 ''unexpected close comment in string.'', ''{ "a'' @ [CHR 0x5C] @ ''*'') \<and>
   outcome (main [''debug''] (''/*debug x = /a'' @ [CHR 0x5C] @ ''*/ 2*/'')) =
     Inl (At_line 1 ''unexpected comment.'', ''{ x = /a'' @ [CHR 0x5C] @ ''*'') \<and>
   outcome (main [''debug''] (''/*debug x = /[a'' @ [CHR 0x5C] @ ''*/]/*/'')) =
     Inl (At_line 1 ''unexpected close comment in regexp.'', ''{ x = /[a'' @ [CHR 0x5C] @ ''*'') \<and>
   outcome (main [''debug''] (''/*debug(x = "'' @ [CHR 0x5C] @ ''*/") y*/'')) =
     Inl (At_line 1 ''unexpected close comment in string.'', ''if (x = "'' @ [CHR 0x5C] @ ''*'')\<close>
  by code_simp

subsection \<open>Echoing a comment that is no pattern\<close>

text \<open>A text is undelimited when neither \<^verbatim>\<open>/*\<close> nor \<^verbatim>\<open>*/\<close> occurs in it.\<close>

definition undelimited :: "char list \<Rightarrow> bool" where
  "undelimited xs \<longleftrightarrow> \<not> sublist ''/*'' xs \<and> \<not> sublist ''*/'' xs"

lemma undelimited_Cons:
  "undelimited (x # y # zs) \<longleftrightarrow>
     \<not> (x = CHR ''/'' \<and> y = CHR ''*'') \<and> \<not> (x = CHR ''*'' \<and> y = CHR ''/'') \<and>
     undelimited (y # zs)"
  by (auto simp add: undelimited_def sublist_Cons_right)

lemma undelimited_short [simp]: "undelimited []" "undelimited [x]"
  by (auto simp add: undelimited_def sublist_Cons_right)

lemma comment_loop_Exit: "comment_body v = Exit r \<Longrightarrow> comment_loop v = r"
  by (simp add: comment_loop.simps [of v])

lemma comment_loop_Continue: "comment_body v = Continue v' \<Longrightarrow> comment_loop v = comment_loop v'"
  by (simp add: comment_loop.simps [of v])

text \<open>A round of the loop when \<open>c\<close> is the character read last and \<open>y\<close> comes next.\<close>

lemma comment_body_next:
  assumes "sound s" and "pending s = y # ys" and "x \<noteq> CHR 0x00"
  shows "comment_body (ch x, s) =
     (if x = CHR ''/'' \<and> y = CHR ''*'' then
        Exit (Inl (error (advance True y ys s) ''nested comment.''))
      else if x = CHR ''*'' \<and> y = CHR ''/'' then Exit (Inr (advance True y ys s))
      else Continue (ch y, advance True y ys s))"
  using assms by (simp add: comment_body_def get_sound)

lemma comment_body_last:
  assumes "sound s" and "pending s = []" and "x \<noteq> CHR 0x00"
  shows "comment_body (ch x, s) = Continue (EOF, s\<lparr>preview := 0\<rparr>)"
  using assms by (simp add: comment_body_def get_sound EOF_def)

lemma comment_body_EOF: "comment_body (EOF, s) = Exit (Inl (error s ''unterminated comment.''))"
  by (simp add: comment_body_def)

lemma comment_loop_unterminated:
  "sound s \<Longrightarrow> pending s = xs \<Longrightarrow> x \<noteq> CHR 0x00 \<Longrightarrow> undelimited (x # xs) \<Longrightarrow>
     \<exists>s'. comment_loop (ch x, s) = Inl (error s' ''unterminated comment.'') \<and>
       stdout s' = stdout s @ xs"
proof (induction xs arbitrary: x s)
  case Nil
  have "comment_loop (ch x, s) = Inl (error (s\<lparr>preview := 0\<rparr>) ''unterminated comment.'')"
    using comment_body_last [of s x] Nil
    by (simp add: comment_loop_Continue comment_loop_Exit comment_body_EOF)
  then show ?case by (intro exI [of _ "s\<lparr>preview := 0\<rparr>"]) simp
next
  case (Cons y ys)
  have nul: "CHR 0x00 \<notin> set ys" "y \<noteq> CHR 0x00"
    using sound_pending [OF Cons.prems(1)] Cons.prems(2) by auto
  have step: "comment_body (ch x, s) = Continue (ch y, advance True y ys s)"
    using comment_body_next [OF Cons.prems(1,2,3)] Cons.prems(4)
    by (simp add: undelimited_Cons)
  obtain s' where "comment_loop (ch y, advance True y ys s) =
      Inl (error s' ''unterminated comment.'')" "stdout s' = stdout (advance True y ys s) @ ys"
    using Cons.IH [of "advance True y ys s" y] nul Cons.prems(4)
    by (auto simp add: undelimited_Cons)
  then show ?case
    using step by (intro exI [of _ s']) (simp add: comment_loop_Continue)
qed

lemma comment_loop_nested:
  "sound s \<Longrightarrow> pending s = xs \<Longrightarrow> x \<noteq> CHR 0x00 \<Longrightarrow>
     x # xs = pre @ ''/*'' @ rest \<Longrightarrow> undelimited (pre @ ''/'') \<Longrightarrow>
     \<exists>s'. comment_loop (ch x, s) = Inl (error s' ''nested comment.'') \<and>
       stdout s' @ rest = stdout s @ xs"
proof (induction pre arbitrary: x xs s)
  case Nil
  then have x: "x = CHR ''/''" and xs: "pending s = CHR ''*'' # rest" by simp_all
  have "comment_loop (ch x, s) =
      Inl (error (advance True (CHR ''*'') rest s) ''nested comment.'')"
    using comment_body_next [OF Nil.prems(1) xs Nil.prems(3)] x
    by (simp add: comment_loop_Exit)
  then show ?case
    using Nil.prems(2) xs by (intro exI [of _ "advance True (CHR ''*'') rest s"]) simp
next
  case (Cons a pre)
  then have x: "x = a" and xs: "xs = pre @ ''/*'' @ rest" by simp_all
  obtain y ys where ys: "xs = y # ys" "y # ys = pre @ ''/*'' @ rest"
    using xs by (cases xs) auto
  have hd: "\<exists>zs. pre @ ''/'' = y # zs"
    using ys(2) by (cases pre) auto
  then obtain zs where zs: "pre @ ''/'' = y # zs" by blast
  have und: "undelimited (x # y # zs)" using Cons.prems(5) x zs by simp
  have nul: "CHR 0x00 \<notin> set ys" "y \<noteq> CHR 0x00"
    using sound_pending [OF Cons.prems(1)] Cons.prems(2) ys(1) by auto
  have step: "comment_body (ch x, s) = Continue (ch y, advance True y ys s)"
    using comment_body_next [of s y ys x] Cons.prems(1,2,3) ys(1) und
    by (simp add: undelimited_Cons)
  obtain s' where "comment_loop (ch y, advance True y ys s) = Inl (error s' ''nested comment.'')"
      "stdout s' @ rest = stdout (advance True y ys s) @ ys"
    using Cons.IH [of "advance True y ys s" ys y] nul ys(2) und zs
    by (auto simp add: undelimited_Cons)
  then show ?case
    using step ys(1) by (intro exI [of _ s']) (simp add: comment_loop_Continue)
qed

lemma comment_loop_closed:
  "sound s \<Longrightarrow> pending s = xs \<Longrightarrow> x \<noteq> CHR 0x00 \<Longrightarrow>
     x # xs = pre @ ''*/'' @ rest \<Longrightarrow> undelimited (pre @ ''*'') \<Longrightarrow>
     \<exists>s'. comment_loop (ch x, s) = Inr s' \<and> sound s' \<and>
       stdout s' @ rest = stdout s @ xs \<and> pending s' = rest"
proof (induction pre arbitrary: x xs s)
  case Nil
  then have x: "x = CHR ''*''" and xs: "pending s = CHR ''/'' # rest" by simp_all
  have nul: "CHR 0x00 \<notin> set rest"
    using sound_pending [OF Nil.prems(1)] xs by auto
  have "comment_loop (ch x, s) = Inr (advance True (CHR ''/'') rest s)"
    using comment_body_next [OF Nil.prems(1) xs Nil.prems(3)] x
    by (simp add: comment_loop_Exit)
  then show ?case
    using Nil.prems(2) xs nul by (intro exI [of _ "advance True (CHR ''/'') rest s"]) simp
next
  case (Cons a pre)
  then have x: "x = a" and xs: "xs = pre @ ''*/'' @ rest" by simp_all
  obtain y ys where ys: "xs = y # ys" "y # ys = pre @ ''*/'' @ rest"
    using xs by (cases xs) auto
  have hd: "\<exists>zs. pre @ ''*'' = y # zs"
    using ys(2) by (cases pre) auto
  then obtain zs where zs: "pre @ ''*'' = y # zs" by blast
  have und: "undelimited (x # y # zs)" using Cons.prems(5) x zs by simp
  have nul: "CHR 0x00 \<notin> set ys" "y \<noteq> CHR 0x00"
    using sound_pending [OF Cons.prems(1)] Cons.prems(2) ys(1) by auto
  have step: "comment_body (ch x, s) = Continue (ch y, advance True y ys s)"
    using comment_body_next [of s y ys x] Cons.prems(1,2,3) ys(1) und
    by (simp add: undelimited_Cons)
  obtain s' where "comment_loop (ch y, advance True y ys s) = Inr s'" "sound s'"
      "stdout s' @ rest = stdout (advance True y ys s) @ ys" "pending s' = rest"
    using Cons.IH [of "advance True y ys s" ys y] nul ys(2) und zs
    by (auto simp add: undelimited_Cons)
  then show ?case
    using step ys(1) by (intro exI [of _ s']) (simp add: comment_loop_Continue)
qed


lemma comment_body_first:
  assumes "sound s" and "pending s = x # xs"
  shows "comment_body (ch x, s) = Continue (ch x, advance True x xs s)"
proof -
  have "x \<noteq> CHR 0x00"
    using sound_pending [OF assms(1)] unfolding assms(2) by auto
  then have "comment_body (ch x, s) =
     (if x = CHR ''/'' \<and> x = CHR ''*'' then
        Exit (Inl (error (advance True x xs s) ''nested comment.''))
      else if x = CHR ''*'' \<and> x = CHR ''/'' then Exit (Inr (advance True x xs s))
      else Continue (ch x, advance True x xs s))"
    by (rule comment_body_next [OF assms])
  then show ?thesis
    by (cases "x = CHR ''/''"; cases "x = CHR ''*''"; simp)
qed

text \<open>
  Claim C6: the loop that copies the rest of a comment whose command did not match. It
  is entered with the first character of that rest in \<^verbatim>\<open>c\<close> and, pushed back by
  \<^verbatim>\<open>unget\<close>, at the head of the pending input. The three cases go by which comes first
  in the pending input: if a \<^verbatim>\<open>/*\<close> comes before any \<^verbatim>\<open>*/\<close>, the loop echoes the input
  through that \<^verbatim>\<open>/*\<close> and reports a nested comment; if neither occurs, it echoes the
  input to its end and reports an unterminated comment; if a \<^verbatim>\<open>*/\<close> comes first, it
  echoes the input through that \<^verbatim>\<open>*/\<close>, unchanged, and returns with what follows still
  to be read.
\<close>

theorem comment_loop_copies:
  assumes "sound s" and "c = (case pending s of [] \<Rightarrow> EOF | x # xs \<Rightarrow> ch x)"
  shows "(pending s = pre @ ''/*'' @ rest \<and> undelimited (pre @ ''/'') \<longrightarrow>
          (\<exists>s'. comment_loop (c, s) = Inl (error s' ''nested comment.'') \<and>
             stdout s' = stdout s @ pre @ ''/*'')) \<and>
         (undelimited (pending s) \<longrightarrow>
          (\<exists>s'. comment_loop (c, s) = Inl (error s' ''unterminated comment.'') \<and>
             stdout s' = stdout s @ pending s)) \<and>
         (pending s = pre @ ''*/'' @ rest \<and> undelimited (pre @ ''*'') \<longrightarrow>
          (\<exists>s'. comment_loop (c, s) = Inr s' \<and> stdout s' = stdout s @ pre @ ''*/'' \<and>
             pending s' = rest))"
proof (cases "pending s")
  case Nil
  then have c: "c = EOF" using assms(2) by simp
  have l: "comment_loop (c, s) = Inl (error s ''unterminated comment.'')"
    unfolding c using comment_body_EOF [of s] by (rule comment_loop_Exit)
  have n: "pending s \<noteq> pre @ ''/*'' @ rest" "pending s \<noteq> pre @ ''*/'' @ rest"
    using Nil by simp_all
  have "\<exists>s'. comment_loop (c, s) = Inl (error s' ''unterminated comment.'') \<and>
      stdout s' = stdout s @ pending s"
    using l Nil by (intro exI [of _ s]) simp
  then show ?thesis
    using n by simp
next
  case (Cons x xs)
  let ?s1 = "advance True x xs s"
  have c: "c = ch x" using assms(2) Cons by simp
  have nul: "x \<noteq> CHR 0x00" "CHR 0x00 \<notin> set xs"
    using sound_pending [OF assms(1)] Cons by auto
  have first: "comment_loop (c, s) = comment_loop (ch x, ?s1)"
    unfolding c using comment_body_first [OF assms(1) Cons] by (rule comment_loop_Continue)
  have s1: "sound ?s1" "pending ?s1 = xs" "stdout ?s1 = stdout s @ [x]"
    using nul by simp_all
  have 1: "\<exists>s'. comment_loop (c, s) = Inl (error s' ''nested comment.'') \<and>
      stdout s' = stdout s @ pre @ ''/*''"
    if hh: "pending s = pre @ ''/*'' @ rest \<and> undelimited (pre @ ''/'')"
  proof -
    have h: "pending s = pre @ ''/*'' @ rest" "undelimited (pre @ ''/'')"
      using hh by (rule conjunct1, rule_tac conjunct2)
    have eq: "x # xs = pre @ ''/*'' @ rest" using h(1) unfolding Cons .
    obtain s' where s': "comment_loop (ch x, ?s1) = Inl (error s' ''nested comment.'')"
        "stdout s' @ rest = stdout ?s1 @ xs"
      using comment_loop_nested [OF s1(1,2) nul(1) eq h(2)] by blast
    have "stdout s' @ rest = stdout s @ (x # xs)" using s'(2) by simp
    then have "stdout s' @ rest = (stdout s @ pre @ ''/*'') @ rest" unfolding eq by simp
    then have "stdout s' = stdout s @ pre @ ''/*''" by (simp only: append_same_eq)
    then show ?thesis
      using first s'(1) by (intro exI [of _ s']) simp
  qed
  have 2: "\<exists>s'. comment_loop (c, s) = Inl (error s' ''unterminated comment.'') \<and>
      stdout s' = stdout s @ pending s"
    if h: "undelimited (pending s)"
  proof -
    have und: "undelimited (x # xs)" using h unfolding Cons .
    obtain s' where s': "comment_loop (ch x, ?s1) = Inl (error s' ''unterminated comment.'')"
        "stdout s' = stdout ?s1 @ xs"
      using comment_loop_unterminated [OF s1(1,2) nul(1) und] by blast
    have "stdout s' = stdout s @ pending s" using s'(2) unfolding Cons by simp
    then show ?thesis
      using first s'(1) by (intro exI [of _ s']) simp
  qed
  have 3: "\<exists>s'. comment_loop (c, s) = Inr s' \<and> stdout s' = stdout s @ pre @ ''*/'' \<and>
      pending s' = rest"
    if hh: "pending s = pre @ ''*/'' @ rest \<and> undelimited (pre @ ''*'')"
  proof -
    have h: "pending s = pre @ ''*/'' @ rest" "undelimited (pre @ ''*'')"
      using hh by (rule conjunct1, rule_tac conjunct2)
    have eq: "x # xs = pre @ ''*/'' @ rest" using h(1) unfolding Cons .
    obtain s' where s': "comment_loop (ch x, ?s1) = Inr s'"
        "stdout s' @ rest = stdout ?s1 @ xs" "pending s' = rest"
      using comment_loop_closed [OF s1(1,2) nul(1) eq h(2)] by blast
    have "stdout s' @ rest = stdout s @ (x # xs)" using s'(2) by simp
    then have "stdout s' @ rest = (stdout s @ pre @ ''*/'') @ rest" unfolding eq by simp
    then have "stdout s' = stdout s @ pre @ ''*/''" by (simp only: append_same_eq)
    then show ?thesis
      using first s'(1,3) by (intro exI [of _ s']) simp
  qed
  show ?thesis
    by (intro conjI impI; erule 1 2 3)
qed

theorem comment_loop_copies_witness:
  "(\<exists>s'. comment_loop (ch CHR '' '', initial '' a*/b'') = Inr s' \<and>
      stdout s' = '' a*/'' \<and> pending s' = ''b'') \<and>
   (\<exists>s'. comment_loop (ch CHR '' '', initial '' a/*b'') = Inl (error s' ''nested comment.'') \<and>
      stdout s' = '' a/*'') \<and>
   (\<exists>s'. comment_loop (ch CHR '' '', initial '' a*'') = Inl (error s' ''unterminated comment.'') \<and>
      stdout s' = '' a*'')"
proof -
  have s: "sound (initial '' a*/b'')" "sound (initial '' a/*b'')" "sound (initial '' a*'')"
    by (simp_all add: initial_def sound_def)
  have p: "pending (initial '' a*/b'') = '' a'' @ ''*/'' @ ''b''"
    "pending (initial '' a/*b'') = '' a'' @ ''/*'' @ ''b''"
    "pending (initial '' a*'') = '' a*''"
    by (simp_all add: initial_def pending_def)
  have c: "ch CHR '' '' = (case pending (initial '' a*/b'') of [] \<Rightarrow> EOF | x # xs \<Rightarrow> ch x)"
    "ch CHR '' '' = (case pending (initial '' a/*b'') of [] \<Rightarrow> EOF | x # xs \<Rightarrow> ch x)"
    "ch CHR '' '' = (case pending (initial '' a*'') of [] \<Rightarrow> EOF | x # xs \<Rightarrow> ch x)"
    by (simp_all add: p)
  have u: "undelimited ('' a'' @ ''*'')" "undelimited ('' a'' @ ''/'')" "undelimited '' a*''"
    by (simp_all add: undelimited_Cons)
  have so: "stdout (initial '' a*/b'') = []" "stdout (initial '' a/*b'') = []"
    "stdout (initial '' a*'') = []"
    by (simp_all add: initial_def)
  have 1: "\<exists>s'. comment_loop (ch CHR '' '', initial '' a*/b'') = Inr s' \<and>
      stdout s' = stdout (initial '' a*/b'') @ '' a'' @ ''*/'' \<and> pending s' = ''b''"
    using comment_loop_copies [OF s(1) c(1), of "'' a''" "''b''", THEN conjunct2, THEN conjunct2]
      p(1) u(1) by (rule_tac mp) (assumption, intro conjI)
  have 2: "\<exists>s'. comment_loop (ch CHR '' '', initial '' a/*b'') = Inl (error s' ''nested comment.'') \<and>
      stdout s' = stdout (initial '' a/*b'') @ '' a'' @ ''/*''"
    using comment_loop_copies [OF s(2) c(2), of "'' a''" "''b''", THEN conjunct1]
      p(2) u(2) by (rule_tac mp) (assumption, intro conjI)
  have 3: "\<exists>s'. comment_loop (ch CHR '' '', initial '' a*'') =
      Inl (error s' ''unterminated comment.'') \<and>
      stdout s' = stdout (initial '' a*'') @ pending (initial '' a*'')"
    using comment_loop_copies [OF s(3) c(3), of "[]" "[]", THEN conjunct2, THEN conjunct1]
      p(3) u(3) by (rule_tac mp) (assumption, simp)
  show ?thesis
    using 1 2 3 unfolding so p(3) by simp
qed


subsection \<open>A slash: regular expression or division\<close>

text \<open>
  \<open>held c\<close> is the character that the loop of \<^verbatim>\<open>process\<close> has read into \<^verbatim>\<open>c\<close> and
  not yet written. A character is ordinary when the loop echoes it in its last branch:
  it is no quote and no slash. \<open>left_after left xs\<close> is the value of the register
  \<^verbatim>\<open>left\<close> after the loop has echoed the text \<open>xs\<close>: the last character of \<open>xs\<close> above
  the space, or \<open>left\<close> when there is none.
\<close>

definition held :: "int \<Rightarrow> char list" where
  "held c = (if c > 0 then [char_of c] else [])"

definition ordinary :: "char \<Rightarrow> bool" where
  "ordinary x \<longleftrightarrow> x \<noteq> CHR 0x00 \<and> \<not> is_quote (ch x) \<and> x \<noteq> CHR ''/''"

definition left_after :: "int \<Rightarrow> char list \<Rightarrow> int" where
  "left_after left xs = foldl (\<lambda>l x. note_left (ch x) l) left xs"

lemma held_simps [simp]: "held 0 = []" "held EOF = []" "held (ch x) = (if x = CHR 0x00 then [] else [x])"
  by (simp_all add: held_def EOF_def)

lemma process_loop_Exit: "process_body tbl v = Exit r \<Longrightarrow> process_loop tbl v = r"
  by (simp add: process_loop.simps [of tbl v])

lemma process_loop_Continue:
  "process_body tbl v = Continue v' \<Longrightarrow> process_loop tbl v = process_loop tbl v'"
  by (simp add: process_loop.simps [of tbl v])

lemma zero_eq_ch [simp]: "0 = ch x \<longleftrightarrow> x = CHR 0x00"
  using ch_eq0 [of x] by (simp only: eq_commute)

lemma is_quote_0 [simp]: "\<not> is_quote 0" "\<not> is_quote EOF"
  by (simp_all add: is_quote_def)

lemma process_body_ordinary:
  assumes "sound s" and "c = 0 \<or> (\<exists>x. c = ch x \<and> ordinary x)" and "pending s = y # ys"
  shows "process_body tbl (c, left, s) =
     Continue (ch y, note_left c left, advance False y ys (emit c s))"
proof -
  have c: "c \<noteq> EOF" "\<not> is_quote c" "c \<noteq> ch CHR ''/''"
    using assms(2) by (auto simp add: ordinary_def EOF_def)
  show ?thesis
    using c assms(1,3) by (simp add: process_body_def get_sound note_left_def)
qed

lemma process_body_ordinary_end:
  assumes "sound s" and "c = 0 \<or> (\<exists>x. c = ch x \<and> ordinary x)" and "pending s = []"
  shows "process_loop tbl (c, left, s) = Inr ((emit c s)\<lparr>preview := 0\<rparr>)"
proof -
  have c: "c \<noteq> EOF" "\<not> is_quote c" "c \<noteq> ch CHR ''/''"
    using assms(2) by (auto simp add: ordinary_def EOF_def)
  have "process_body tbl (c, left, s) = Continue (EOF, note_left c left, (emit c s)\<lparr>preview := 0\<rparr>)"
    using c assms(1,3) by (simp add: process_body_def get_sound note_left_def)
  moreover have "process_body tbl (EOF, note_left c left, (emit c s)\<lparr>preview := 0\<rparr>) =
      Exit (Inr ((emit c s)\<lparr>preview := 0\<rparr>))"
    by (simp add: process_body_def)
  ultimately show ?thesis
    by (simp add: process_loop_Continue process_loop_Exit)
qed

lemma stdout_emit_held [simp]: "stdout (emit c s) = stdout s @ held c"
  by (simp add: emit_def held_def)

lemma process_loop_ordinary:
  "sound s \<Longrightarrow> c = 0 \<or> (\<exists>x. c = ch x \<and> ordinary x) \<Longrightarrow> pending s = pre @ y # rest \<Longrightarrow>
     list_all ordinary pre \<Longrightarrow>
     process_loop tbl (c, left, s) =
       process_loop tbl (ch y, left_after (note_left c left) pre,
         \<lparr>stdin = rest, stdout = stdout s @ held c @ pre, preview = 0, cr = (y = CHR 0x0D),
          line_nr = line_after (cr s) (line_nr s) (pre @ [y])\<rparr>)"
proof (induction pre arbitrary: c left s)
  case Nil
  have "process_body tbl (c, left, s) =
      Continue (ch y, note_left c left, advance False y rest (emit c s))"
    using Nil by (intro process_body_ordinary) simp_all
  then show ?case
    by (simp add: process_loop_Continue left_after_def advance_def)
next
  case (Cons a pre)
  let ?s1 = "advance False a (pre @ y # rest) (emit c s)"
  have step: "process_body tbl (c, left, s) = Continue (ch a, note_left c left, ?s1)"
    using Cons.prems by (intro process_body_ordinary) simp_all
  have nul: "CHR 0x00 \<notin> set (pre @ y # rest)"
    using sound_pending [OF Cons.prems(1)] Cons.prems(3) by simp
  have a: "ordinary a" "list_all ordinary pre" using Cons.prems(4) by simp_all
  have "process_loop tbl (ch a, note_left c left, ?s1) =
      process_loop tbl (ch y, left_after (note_left (ch a) (note_left c left)) pre,
         \<lparr>stdin = rest, stdout = stdout ?s1 @ held (ch a) @ pre, preview = 0,
          cr = (y = CHR 0x0D),
          line_nr = line_after (cr ?s1) (line_nr ?s1) (pre @ [y])\<rparr>)"
    using nul a by (intro Cons.IH) auto
  then show ?case
    using step a(1) by (simp add: process_loop_Continue left_after_def ordinary_def add.assoc)
qed


lemma peek_again:
  "sound s \<Longrightarrow> pending s = y # ys \<Longrightarrow>
     peek (s\<lparr>stdin := ys, preview := ch y\<rparr>) = (ch y, s\<lparr>stdin := ys, preview := ch y\<rparr>)"
  using sound_pending [of s] by (auto simp add: peek_def)

lemma peek_again_EOF: "peek (s\<lparr>preview := EOF\<rparr>) = (EOF, s\<lparr>preview := EOF\<rparr>)"
  by (simp add: peek_def EOF_def)

lemma process_body_slash:
  assumes "sound s" and "take 1 (pending s) \<noteq> ''/''" and "take 1 (pending s) \<noteq> ''*''"
  shows "process_body tbl (ch CHR ''/'', left, s) =
     (case (if pre_regexp left then regexp False (emit (ch CHR ''/'') (snd (peek s)))
            else Inr (emit (ch CHR ''/'') (snd (peek s)))) of
        Inl e \<Rightarrow> Exit (Inl e)
      | Inr s4 \<Rightarrow> Continue (fst (get False s4), ch CHR ''/'', snd (get False s4)))"
proof (cases "pending s")
  case Nil
  then show ?thesis
    using assms(1)
    by (simp add: process_body_def is_quote_def peek_sound peek_again_EOF EOF_def [symmetric]
        split_beta Let_def split: sum.splits)
next
  case (Cons y ys)
  then have y: "y \<noteq> CHR ''/''" "y \<noteq> CHR ''*''" using assms(2,3) by simp_all
  show ?thesis
    using assms(1) Cons y peek_again [OF assms(1) Cons]
    by (simp add: process_body_def is_quote_def peek_sound split_beta Let_def split: sum.splits)
qed

lemma process_loop_slash:
  assumes "sound s" and "take 1 (pending s) \<noteq> ''/''" and "take 1 (pending s) \<noteq> ''*''"
  shows "process_loop tbl (ch CHR ''/'', left, s) =
     (case (if pre_regexp left then regexp False (emit (ch CHR ''/'') (snd (peek s)))
            else Inr (emit (ch CHR ''/'') (snd (peek s)))) of
        Inl e \<Rightarrow> Inl e
      | Inr s4 \<Rightarrow> process_loop tbl (fst (get False s4), ch CHR ''/'', snd (get False s4)))"
  using process_body_slash [OF assms, of tbl left]
  by (simp add: process_loop.simps [of tbl "(ch CHR ''/'', left, s)"] split: sum.splits)

lemma peek_passes:
  "sound s \<Longrightarrow> sound (snd (peek s)) \<and> pending (snd (peek s)) = pending s \<and>
     stdout (snd (peek s)) = stdout s"
  using sound_pending [of s]
  by (cases "pending s") (auto simp add: peek_sound dest: pending_nil_stdin)


lemma note_left_0 [simp]: "note_left 0 left = left"
  by (simp add: note_left_def)

lemma slash_in_hand:
  assumes "sound s" and "take 1 (pending s) \<noteq> ''/''" and "take 1 (pending s) \<noteq> ''*''"
  shows "\<exists>S. sound S \<and> pending S = pending s \<and> stdout S = stdout s @ ''/'' \<and>
     process_loop tbl (ch CHR ''/'', left, s) =
       (case (if pre_regexp left then regexp False S else Inr S) of
          Inl e \<Rightarrow> Inl e
        | Inr s4 \<Rightarrow> process_loop tbl (fst (get False s4), ch CHR ''/'', snd (get False s4)))"
  using process_loop_slash [OF assms, of tbl left] peek_passes [OF assms(1)]
  by (intro exI [of _ "emit (ch CHR ''/'') (snd (peek s))"]) simp

lemma slash_decided:
  assumes "sound s" and "c = 0 \<or> (\<exists>x. c = ch x \<and> x \<noteq> CHR 0x00)"
    and "held c @ pending s = pre @ CHR ''/'' # rest"
    and "list_all ordinary pre"
    and "take 1 rest \<noteq> ''/''" and "take 1 rest \<noteq> ''*''"
  shows "\<exists>S. sound S \<and> pending S = rest \<and> stdout S = stdout s @ pre @ ''/'' \<and>
     process_loop tbl (c, left, s) =
       (case (if pre_regexp (left_after left pre) then regexp False S else Inr S) of
          Inl e \<Rightarrow> Inl e
        | Inr s4 \<Rightarrow> process_loop tbl (fst (get False s4), ch CHR ''/'', snd (get False s4)))"
proof -
  have nul: "CHR 0x00 \<notin> set (pending s)" using assms(1) by (rule sound_pending)
  have at_slash: ?thesis
    if run: "process_loop tbl (c, left, s) = process_loop tbl (ch CHR ''/'', left_after left pre, s')"
      and s': "sound s'" "pending s' = rest" "stdout s' = stdout s @ pre"
    for s'
  proof -
    have t: "take 1 (pending s') \<noteq> ''/''" "take 1 (pending s') \<noteq> ''*''"
      unfolding s'(2) by (rule assms(5), rule assms(6))
    obtain S where S: "sound S" "pending S = pending s'" "stdout S = stdout s' @ ''/''"
        "process_loop tbl (ch CHR ''/'', left_after left pre, s') =
          (case (if pre_regexp (left_after left pre) then regexp False S else Inr S) of
             Inl e \<Rightarrow> Inl e
           | Inr s4 \<Rightarrow>
               process_loop tbl (fst (get False s4), ch CHR ''/'', snd (get False s4)))"
      using slash_in_hand [OF s'(1) t, of tbl "left_after left pre"] by blast
    show ?thesis
    proof (intro exI [of _ S] conjI)
      show "sound S" by (rule S(1))
      show "pending S = rest" using S(2) s'(2) by simp
      show "stdout S = stdout s @ pre @ ''/''" using S(3) s'(3) by simp
      show "process_loop tbl (c, left, s) =
          (case (if pre_regexp (left_after left pre) then regexp False S else Inr S) of
             Inl e \<Rightarrow> Inl e
           | Inr s4 \<Rightarrow>
               process_loop tbl (fst (get False s4), ch CHR ''/'', snd (get False s4)))"
        unfolding run by (rule S(4))
    qed
  qed
  consider (slash) "c = ch CHR ''/''" | (zero) "c = 0"
    | (char) x where "c = ch x" "x \<noteq> CHR 0x00" "x \<noteq> CHR ''/''"
    using assms(2) by auto
  then show ?thesis
  proof cases
    case slash
    then have "CHR ''/'' # pending s = pre @ CHR ''/'' # rest" using assms(3) by simp
    then have pre: "pre = []" and p: "pending s = rest"
      using assms(4) by (cases pre; simp add: ordinary_def)+
    show ?thesis
      using assms(1) by (intro at_slash [of s]) (simp_all add: slash pre p left_after_def)
  next
    case zero
    let ?s' = "\<lparr>stdin = rest, stdout = stdout s @ held c @ pre, preview = 0,
      cr = (CHR ''/'' = CHR 0x0D),
      line_nr = line_after (cr s) (line_nr s) (pre @ [CHR ''/''])\<rparr>"
    have p: "pending s = pre @ CHR ''/'' # rest" using assms(3) zero by simp
    have run: "process_loop tbl (c, left, s) =
        process_loop tbl (ch CHR ''/'', left_after (note_left c left) pre, ?s')"
      using assms(1,4) p zero by (intro process_loop_ordinary) simp_all
    have s': "sound ?s'" "pending ?s' = rest" "stdout ?s' = stdout s @ pre"
      using nul p zero by (simp_all add: sound_def pending_def)
    show ?thesis
      using run s' zero by (intro at_slash [of ?s']) simp_all
  next
    case char
    then have "x # pending s = pre @ CHR ''/'' # rest" using assms(3) by simp
    then obtain pre' where pre: "pre = x # pre'" and p: "pending s = pre' @ CHR ''/'' # rest"
      using char(3) by (cases pre) auto
    have ord: "ordinary x" "list_all ordinary pre'" using assms(4) pre by simp_all
    let ?s' = "\<lparr>stdin = rest, stdout = stdout s @ held c @ pre', preview = 0,
      cr = (CHR ''/'' = CHR 0x0D),
      line_nr = line_after (cr s) (line_nr s) (pre' @ [CHR ''/''])\<rparr>"
    have run: "process_loop tbl (c, left, s) =
        process_loop tbl (ch CHR ''/'', left_after (note_left c left) pre', ?s')"
      using assms(1) p char(1) ord by (intro process_loop_ordinary) auto
    have s': "sound ?s'" "pending ?s' = rest" "stdout ?s' = stdout s @ pre"
      using nul p char pre by (simp_all add: sound_def pending_def)
    have l: "left_after (note_left c left) pre' = left_after left pre"
      using char(1) pre by (simp add: left_after_def)
    show ?thesis
      using run s' l by (intro at_slash [of ?s']) simp_all
  qed
qed


lemma comment_keeps_left:
  assumes "sound s" and "take 1 (pending s) = ''/'' \<or> take 1 (pending s) = ''*''"
    and "process_body tbl (ch CHR ''/'', left, s) = Continue (c', left', s')"
  shows "left' = left"
proof -
  obtain y ys where p: "pending s = y # ys" and y: "y = CHR ''/'' \<or> y = CHR ''*''"
    using assms(2) by (cases "pending s") auto
  show ?thesis
    using assms(1,3) p y peek_again [OF assms(1) p]
    by (auto simp add: process_body_def is_quote_def peek_sound Let_def
        split: prod.splits sum.splits if_splits)
qed

lemma string_keeps_left:
  assumes "is_quote c" and "process_body tbl (c, left, s) = Continue (c', left', s')"
  shows "left' = left \<and> c' = 0"
proof -
  have "c \<noteq> EOF" using assms(1) by (auto simp add: is_quote_def EOF_def)
  then show ?thesis
    using assms by (auto simp add: process_body_def split: sum.splits)
qed

lemma pre_regexp_iff: "pre_regexp left \<longleftrightarrow> left \<in> set (map ch ''(,=:[!&|?{};'')"
  by (auto simp add: pre_regexp_def)

text \<open>
  The register \<^verbatim>\<open>left\<close> is not the last character that was written. In both inputs
  below the last character above the space before the second slash is the slash that
  ends the comment, which is none of the twelve; the first run enters \<^verbatim>\<open>regexp\<close> all
  the same (and fails there, the input ending in the literal), the second does not.
\<close>

lemma slash_after_comment:
  "outcome (main [] ''=/**/ /x'') =
     Inl (At_line 1 ''unterminated regexp literal.'', ''=/**/ /x'') \<and>
   outcome (main [] ''a/**/ /x'') = Inr ''a/**/ /x'' \<and>
   left_after 0 ''=/**/ '' = ch CHR ''/'' \<and>
   left_after 0 ''a/**/ '' = ch CHR ''/'' \<and>
   \<not> pre_regexp (ch CHR ''/'')"
  by code_simp

text \<open>
  How the register decides. Let the loop of \<^verbatim>\<open>process\<close> be at any round, with
  register \<open>left\<close>, and let ordinary text \<open>pre\<close>, then a slash, then a text that begins
  with neither slash nor star lie ahead. Then the loop echoes \<open>pre\<close> and the slash and
  goes on with \<^verbatim>\<open>regexp\<close> if \<open>left_after left pre\<close> is one of the twelve characters
  \<^verbatim>\<open>( , = : [ ! & | ? { } ;\<close>, and directly with the next character otherwise, in both
  cases with \<^verbatim>\<open>/\<close> in the register. A round that copies a comment or expands a
  pattern leaves the register as it was (second part), and so does a round that skips a
  string literal (third part).
\<close>

lemma slash_decided_by_left:
  assumes "sound s" and "c = 0 \<or> (\<exists>x. c = ch x \<and> x \<noteq> CHR 0x00)"
    and "held c @ pending s = pre @ CHR ''/'' # rest"
    and "list_all ordinary pre"
    and "take 1 rest \<noteq> ''/''" and "take 1 rest \<noteq> ''*''"
  shows "\<exists>S. sound S \<and> pending S = rest \<and> stdout S = stdout s @ pre @ ''/'' \<and>
            process_loop tbl (c, left, s) =
              (case (if left_after left pre \<in> set (map ch ''(,=:[!&|?{};'')
                     then regexp False S else Inr S) of
                 Inl e \<Rightarrow> Inl e
               | Inr s4 \<Rightarrow>
                   process_loop tbl (fst (get False s4), ch CHR ''/'', snd (get False s4)))"
    and "\<And>t l c' l' t'.
           sound t \<Longrightarrow> take 1 (pending t) = ''/'' \<or> take 1 (pending t) = ''*'' \<Longrightarrow>
           process_body tbl (ch CHR ''/'', l, t) = Continue (c', l', t') \<Longrightarrow> l' = l"
    and "\<And>t q l c' l' t'.
           is_quote q \<Longrightarrow> process_body tbl (q, l, t) = Continue (c', l', t') \<Longrightarrow> l' = l"
proof -
  show "\<exists>S. sound S \<and> pending S = rest \<and> stdout S = stdout s @ pre @ ''/'' \<and>
            process_loop tbl (c, left, s) =
              (case (if left_after left pre \<in> set (map ch ''(,=:[!&|?{};'')
                     then regexp False S else Inr S) of
                 Inl e \<Rightarrow> Inl e
               | Inr s4 \<Rightarrow>
                   process_loop tbl (fst (get False s4), ch CHR ''/'', snd (get False s4)))"
    using slash_decided [OF assms, of tbl left] unfolding pre_regexp_iff .
  show "l' = l"
    if "sound t" and "take 1 (pending t) = ''/'' \<or> take 1 (pending t) = ''*''"
      and "process_body tbl (ch CHR ''/'', l, t) = Continue (c', l', t')"
    for t l c' l' t'
    using that by (rule comment_keeps_left)
  show "l' = l"
    if "is_quote q" and "process_body tbl (q, l, t) = Continue (c', l', t')"
    for t q l c' l' t'
    using string_keeps_left [OF that] by simp
qed

text \<open>
  Claim C3 says that a slash that opens no comment starts a regular expression exactly
  when the last character above the space that was written to its left is one of
  \<^verbatim>\<open>( , = : [ ! & | ? { } ;\<close>, which are the characters that \<^verbatim>\<open>pre_regexp\<close> accepts
  (first line), and that any other left context, a closing string quote among them,
  makes it a division. In \<^verbatim>\<open>process\<close> a string literal leaves no trace in the register
  \<^verbatim>\<open>left\<close>: the branch for a quote ends with \<^verbatim>\<open>c = 0\<close>, and the update of \<^verbatim>\<open>left\<close> is
  in another branch. So in \<^verbatim>\<open>x = "6" / 2;\<close> the slash is judged by the \<^verbatim>\<open>=\<close> before the
  string: \<^verbatim>\<open>regexp\<close> is entered and, the input holding no second slash, the run ends with
  \<^verbatim>\<open>unterminated regexp literal.\<close>, whereas \<^verbatim>\<open>x = 6 / 2;\<close> is copied. \<^verbatim>\<open>stuff\<close> and
  \<^verbatim>\<open>condition\<close> do store the quote after a string, and inside a pattern the same text is
  read as a division (last two lines).
\<close>

theorem slash_after_string:
  \<open>(\<forall>left. pre_regexp left = (left \<in> set (map ch ''(,=:[!&|?{};''))) \<and>
   outcome (main [] ''x = "6" / 2;'') =
     Inl (At_line 1 ''unterminated regexp literal.'', ''x = "6" / 2;'') \<and>
   outcome (main [] ''x = 6 / 2;'') = Inr ''x = 6 / 2;'' \<and>
   outcome (main [''debug''] ''/*debug x = "6" / 2;*/'') = Inr ''{ x = "6" / 2;;}'' \<and>
   outcome (main [''debug''] ''/*debug(x = "6" / 2) y*/'') = Inr ''if (x = "6" / 2){ y;}''\<close>
proof -
  have 1: \<open>outcome (main [] ''x = "6" / 2;'') =
      Inl (At_line 1 ''unterminated regexp literal.'', ''x = "6" / 2;'')\<close>
    by code_simp
  have 2: \<open>outcome (main [] ''x = 6 / 2;'') = Inr ''x = 6 / 2;''\<close>
    by code_simp
  have 3: \<open>outcome (main [''debug''] ''/*debug x = "6" / 2;*/'') = Inr ''{ x = "6" / 2;;}''\<close>
    by code_simp
  have 4: \<open>outcome (main [''debug''] ''/*debug(x = "6" / 2) y*/'') =
      Inr ''if (x = "6" / 2){ y;}''\<close>
    by code_simp
  show ?thesis
    using 1 2 3 4 pre_regexp_iff by blast
qed

lemma slash_decided_by_left_example:
  "left_after 0 ''x='' \<in> set (map ch ''(,=:[!&|?{};'') \<and>
   (\<exists>S. sound S \<and> pending S = ''a'' \<and> stdout S = ''x=/'' \<and>
      process_loop [] (ch CHR ''x'', 0, initial ''=/a'') =
        (case regexp False S of
           Inl e \<Rightarrow> Inl e
         | Inr s4 \<Rightarrow> process_loop [] (fst (get False s4), ch CHR ''/'', snd (get False s4))))"
proof -
  have s: "sound (initial ''=/a'')" by (simp add: initial_def sound_def)
  have c: "ch CHR ''x'' = 0 \<or> (\<exists>x. ch CHR ''x'' = ch x \<and> x \<noteq> CHR 0x00)" by auto
  have p: "held (ch CHR ''x'') @ pending (initial ''=/a'') = ''x='' @ CHR ''/'' # ''a''"
    by (simp add: initial_def pending_def)
  have o: "list_all ordinary ''x=''"
    by (simp add: ordinary_def is_quote_def)
  have l: "left_after 0 ''x='' \<in> set (map ch ''(,=:[!&|?{};'')"
    by (simp add: left_after_def note_left_def of_char_Char)
  have "\<exists>S. sound S \<and> pending S = ''a'' \<and> stdout S = stdout (initial ''=/a'') @ ''x='' @ ''/'' \<and>
      process_loop [] (ch CHR ''x'', 0, initial ''=/a'') =
        (case (if left_after 0 ''x='' \<in> set (map ch ''(,=:[!&|?{};'')
               then regexp False S else Inr S) of
           Inl e \<Rightarrow> Inl e
         | Inr s4 \<Rightarrow> process_loop [] (fst (get False s4), ch CHR ''/'', snd (get False s4)))"
    using slash_decided_by_left(1) [OF s c p o, of "[]" 0] by simp
  then show ?thesis
    using l by (simp add: initial_def)
qed

subsection \<open>Input without patterns\<close>

text \<open>
  \<open>passes s s'\<close>: from the state \<open>s\<close> to the state \<open>s'\<close> the scanner has only moved
  characters from the input to the output, so that output and pending input together are
  the same text in both.
\<close>

definition passes :: "state \<Rightarrow> state \<Rightarrow> bool" where
  "passes s s' \<longleftrightarrow>
     (sound s \<longrightarrow>
      sound s' \<and> prefix (stdout s) (stdout s') \<and> stdout s' @ pending s' = stdout s @ pending s)"

definition state_of :: "state result \<Rightarrow> state" where
  "state_of r = (case r of Inl (d, s) \<Rightarrow> s | Inr s \<Rightarrow> s)"

lemma state_of_simps [simp]:
  "state_of (Inl (d, s)) = s" "state_of (Inr s) = s" "state_of (Inl (error s message)) = s"
  by (simp_all add: state_of_def error_def)

lemma passes_refl [simp]: "passes s s"
  by (simp add: passes_def)

lemma passes_trans: "passes s s' \<Longrightarrow> passes s' s'' \<Longrightarrow> passes s s''"
  by (auto simp add: passes_def)

lemma passes_line [simp]: "passes s (s'\<lparr>line_nr := n\<rparr>) = passes s s'"
  by (simp add: passes_def)

lemma passes_get: "get True s = (c, s') \<Longrightarrow> passes s s'"
proof (cases "pending s")
  case Nil
  then have st: "stdin s = []" by (rule pending_nil_stdin)
  assume "get True s = (c, s')"
  then show ?thesis
    using Nil st by (auto simp add: passes_def get_sound)
next
  case (Cons x xs)
  assume "get True s = (c, s')"
  then show ?thesis
    using Cons sound_pending [of s] by (auto simp add: passes_def get_sound)
qed

lemma passes_peek: "peek s = (c, s') \<Longrightarrow> passes s s'"
proof (cases "pending s")
  case Nil
  then have st: "stdin s = []" by (rule pending_nil_stdin)
  assume "peek s = (c, s')"
  then show ?thesis
    using Nil st by (auto simp add: passes_def peek_sound)
next
  case (Cons x xs)
  assume "peek s = (c, s')"
  then show ?thesis
    using Cons sound_pending [of s] by (auto simp add: passes_def peek_sound)
qed

lemma passes_star_slash: "star_slash guard c s = (hit, s') \<Longrightarrow> passes s s'"
  by (auto simp add: star_slash_def split: if_splits prod.splits dest: passes_peek)

lemma passes_peek_slash_or_star: "peek_slash_or_star s = (hit, s') \<Longrightarrow> passes s s'"
  by (auto simp add: peek_slash_or_star_def split: if_splits prod.splits
      dest!: passes_peek intro: passes_trans)

lemma string_body_passes:
  "(string_body quote in_comment was s = Exit r \<longrightarrow> passes s (state_of r)) \<and>
   (string_body quote in_comment was s = Continue s' \<longrightarrow> passes s s')"
  by (auto simp add: string_body_def Let_def split: prod.splits if_splits
      dest!: passes_get passes_star_slash intro: passes_trans)

lemma string_loop_passes: "passes s (state_of (string_loop quote in_comment was s))"
proof (induction quote in_comment was s rule: string_loop.induct)
  case (1 quote in_comment was s)
  show ?case
  proof (cases "string_body quote in_comment was s")
    case (Exit r)
    then show ?thesis
      using string_body_passes [of quote in_comment was s r]
      by (simp add: string_loop.simps [of quote in_comment was s])
  next
    case (Continue s1)
    then show ?thesis
      using string_body_passes [of quote in_comment was s _ s1] "1.IH" [OF Continue]
      by (auto simp add: string_loop.simps [of quote in_comment was s] intro: passes_trans)
  qed
qed


lemma string_passes: "passes s (state_of (string quote in_comment s))"
  unfolding string_def by (rule string_loop_passes)

lemma regexp_set_body_passes:
  "(regexp_set_body in_comment s = Exit r \<longrightarrow> passes s (state_of r)) \<and>
   (regexp_set_body in_comment s = Continue s' \<longrightarrow> passes s s')"
  by (auto simp add: regexp_set_body_def Let_def split: prod.splits if_splits
      dest!: passes_get passes_star_slash intro: passes_trans)

lemma regexp_set_passes: "passes s (state_of (regexp_set in_comment s))"
proof (induction in_comment s rule: regexp_set.induct)
  case (1 in_comment s)
  show ?case
  proof (cases "regexp_set_body in_comment s")
    case (Exit r)
    then show ?thesis
      using regexp_set_body_passes [of in_comment s r]
      by (simp add: regexp_set.simps [of in_comment s])
  next
    case (Continue s1)
    then show ?thesis
      using regexp_set_body_passes [of in_comment s _ s1] "1.IH" [OF Continue]
      by (auto simp add: regexp_set.simps [of in_comment s] intro: passes_trans)
  qed
qed

lemma regexp_tail_passes:
  "(regexp_tail in_comment was c s = Exit r \<longrightarrow> passes s (state_of r)) \<and>
   (regexp_tail in_comment was c s = Continue s' \<longrightarrow> passes s s')"
  by (auto simp add: regexp_tail_def split: prod.splits if_splits dest!: passes_star_slash)

lemma regexp_body_passes:
  "(regexp_body in_comment was s = Exit r \<longrightarrow> passes s (state_of r)) \<and>
   (regexp_body in_comment was s = Continue s' \<longrightarrow> passes s s')"
proof -
  obtain c s1 where g: "get True s = (c, s1)" by (cases "get True s")
  have 1: "passes s s1" using g by (rule passes_get)
  show ?thesis
  proof (cases "c = ch CHR ''[''")
    case True
    have 2: "passes s1 (state_of (regexp_set in_comment s1))" by (rule regexp_set_passes)
    show ?thesis
    proof (cases "regexp_set in_comment s1")
      case (Inl e)
      then show ?thesis
        using True g 1 2 by (cases e) (auto simp add: regexp_body_def intro: passes_trans)
    next
      case (Inr s2)
      then show ?thesis
        using True g 1 2 regexp_tail_passes [of in_comment was "ch CHR '']''" s2 r s']
        by (auto simp add: regexp_body_def intro: passes_trans)
    qed
  next
    case nb: False
    show ?thesis
    proof (cases "c = ch CHR ''/''")
      case True
      then show ?thesis
        using nb g 1
        by (auto simp add: regexp_body_def split: prod.splits if_splits
            dest!: passes_peek_slash_or_star intro: passes_trans)
    next
      case ns: False
      show ?thesis
      proof (cases "c = ch (CHR 0x5C)")
        case True
        obtain c2 s2 where g2: "get True s1 = (c2, s2)" by (cases "get True s1")
        have "passes s1 s2" using g2 by (rule passes_get)
        then show ?thesis
          using True nb ns g g2 1 regexp_tail_passes [of in_comment was c2 s2 r s']
          by (auto simp add: regexp_body_def intro: passes_trans)
      next
        case False
        then show ?thesis
          using nb ns g 1 regexp_tail_passes [of in_comment was c s1 r s']
          by (auto simp add: regexp_body_def intro: passes_trans)
      qed
    qed
  qed
qed

lemma regexp_loop_passes: "passes s (state_of (regexp_loop in_comment was s))"
proof (induction in_comment was s rule: regexp_loop.induct)
  case (1 in_comment was s)
  show ?case
  proof (cases "regexp_body in_comment was s")
    case (Exit r)
    then show ?thesis
      using regexp_body_passes [of in_comment was s r]
      by (simp add: regexp_loop.simps [of in_comment was s])
  next
    case (Continue s1)
    then show ?thesis
      using regexp_body_passes [of in_comment was s _ s1] "1.IH" [OF Continue]
      by (auto simp add: regexp_loop.simps [of in_comment was s] intro: passes_trans)
  qed
qed

lemma regexp_passes: "passes s (state_of (regexp in_comment s))"
  unfolding regexp_def by (rule regexp_loop_passes)

lemma line_comment_passes: "passes s (line_comment s)"
proof (induction s rule: line_comment.induct)
  case (1 s)
  obtain c s1 where g: "get True s = (c, s1)" by (cases "get True s")
  have 1: "passes s s1" using g by (rule passes_get)
  show ?case
  proof (cases "c = ch (CHR 0x0A) \<or> c = ch (CHR 0x0D) \<or> c = EOF")
    case True
    then show ?thesis
      using 1 by (auto simp add: line_comment.simps [of s] g)
  next
    case False
    then have "passes s1 (line_comment s1)"
      using "1.IH" [OF refl g [symmetric]] by simp
    then show ?thesis
      using False 1 by (auto simp add: line_comment.simps [of s] g intro: passes_trans)
  qed
qed

lemma comment_body_passes:
  "(comment_body (c, s) = Exit r \<longrightarrow> passes s (state_of r)) \<and>
   (comment_body (c, s) = Continue (c', s') \<longrightarrow> passes s s')"
  by (auto simp add: comment_body_def Let_def split: prod.splits if_splits dest!: passes_get)

lemma comment_loop_passes: "passes (snd v) (state_of (comment_loop v))"
proof (induction v rule: comment_loop.induct)
  case (1 v)
  obtain c s where v: "v = (c, s)" by (cases v)
  show ?case
  proof (cases "comment_body v")
    case (Exit r)
    then show ?thesis
      using comment_body_passes [of c s r] v
      by (simp add: comment_loop.simps [of "(c, s)"])
  next
    case (Continue v1)
    obtain c1 s1 where v1: "v1 = (c1, s1)" by (cases v1)
    have "passes s s1"
      using comment_body_passes [of c s _ c1 s1] Continue v v1 by simp
    moreover have "passes s1 (state_of (comment_loop v1))"
      using "1.IH" [OF Continue] v1 by simp
    ultimately show ?thesis
      using Continue v by (auto simp add: comment_loop.simps [of "(c, s)"] intro: passes_trans)
  qed
qed


text \<open>
  \<open>comment_cmds input\<close> lists, for every \<^verbatim>\<open>/*\<close> in the input, the run of letters, digits,
  underscores, dollars and periods that follows it.
\<close>

definition alnum :: "char \<Rightarrow> bool" where
  "alnum x = is_alphanum (ch x)"

fun comment_cmds :: "char list \<Rightarrow> string list" where
  "comment_cmds (x # y # zs) =
     (if x = CHR ''/'' \<and> y = CHR ''*'' then [takeWhile alnum zs] else []) @
     comment_cmds (y # zs)"
| "comment_cmds [x] = []"
| "comment_cmds [] = []"

lemma comment_cmds_mem:
  "takeWhile alnum r \<in> set (comment_cmds (pre @ ''/*'' @ r))"
proof (induction pre)
  case Nil
  show ?case by simp
next
  case (Cons a pre)
  obtain y zs where "pre @ ''/*'' @ r = y # zs" by (cases pre) auto
  then show ?case using Cons by simp
qed

lemma alnum_not_special:
  "alnum x \<Longrightarrow> x \<noteq> CHR 0x00"
  by (auto simp add: alnum_def is_alphanum_def of_char_Char)

lemma not_alnum_EOF [simp]: "\<not> is_alphanum EOF"
  by (simp add: is_alphanum_def EOF_def of_char_Char)

lemma cmd_loop_takes:
  "sound s \<Longrightarrow> preview s = 0 \<Longrightarrow> stdin s = xs \<Longrightarrow>
     i + length (takeWhile alnum xs) < MAX_CMD_LENGTH \<Longrightarrow>
     cmd_loop i cmd c s = (i', cmd', c', s') \<Longrightarrow>
     i' = i + length (takeWhile alnum xs) \<and> cmd' = cmd @ takeWhile alnum xs \<and>
     sound (unget c' s') \<and> pending (unget c' s') = dropWhile alnum xs \<and>
     stdout s' = stdout s \<and>
     c' = (case dropWhile alnum xs of [] \<Rightarrow> EOF | x # _ \<Rightarrow> ch x)"
proof (induction xs arbitrary: i cmd c s)
  case Nil
  have p: "pending s = []" using Nil.prems(2,3) by (simp add: pending_def)
  have "cmd_loop i cmd c s = (i, cmd, EOF, s\<lparr>preview := 0\<rparr>)"
    using Nil.prems(1,4) p by (simp add: cmd_loop.simps [of i cmd c s] get_sound)
  then show ?case
    using Nil.prems by (auto simp add: unget_def)
next
  case (Cons x xs)
  have p: "pending s = x # xs" using Cons.prems(2,3) by (simp add: pending_def)
  have nul: "x \<noteq> CHR 0x00" "CHR 0x00 \<notin> set xs"
    using sound_pending [OF Cons.prems(1)] p by auto
  have i: "i < MAX_CMD_LENGTH" using Cons.prems(4) by simp
  show ?case
  proof (cases "alnum x")
    case False
    then have "cmd_loop i cmd c s = (i, cmd, ch x, advance False x xs s)"
      using Cons.prems(1) p i by (simp add: cmd_loop.simps [of i cmd c s] get_sound alnum_def)
    then show ?thesis
      using Cons.prems nul False
      by (auto simp add: unget_def advance_def sound_def pending_def)
  next
    case True
    let ?s1 = "advance False x xs s"
    have rec: "cmd_loop (i + 1) (cmd @ [x]) (ch x) ?s1 = (i', cmd', c', s')"
      using Cons.prems(5) p True Cons.prems(1) i
      by (simp add: cmd_loop.simps [of i cmd c s] get_sound alnum_def)
    have "i' = (i + 1) + length (takeWhile alnum xs) \<and> cmd' = (cmd @ [x]) @ takeWhile alnum xs \<and>
        sound (unget c' s') \<and> pending (unget c' s') = dropWhile alnum xs \<and>
        stdout s' = stdout ?s1 \<and>
        c' = (case dropWhile alnum xs of [] \<Rightarrow> EOF | x # _ \<Rightarrow> ch x)"
      using nul Cons.prems(4) True by (intro Cons.IH [OF _ _ _ _ rec]) simp_all
    then show ?thesis
      using True by clarsimp
  qed
qed

lemma match_loop_none:
  "cmd \<notin> fst ` set tbl \<Longrightarrow> match_loop tbl cmd cmd_nr = EOF"
proof (induction tbl cmd cmd_nr rule: match_loop.induct)
  case (1 tbl cmd cmd_nr)
  show ?case
  proof (cases "cmd_nr < length tbl")
    case True
    then have "cmd \<noteq> fst (tbl ! cmd_nr)"
      using "1.prems" nth_mem [OF True] by force
    then show ?thesis
      using True "1.IH" "1.prems" by (simp add: match_loop.simps [of tbl cmd cmd_nr])
  next
    case False
    then show ?thesis by (simp add: match_loop.simps [of tbl cmd cmd_nr])
  qed
qed


text \<open>
  The invariant of the loop of \<^verbatim>\<open>process\<close>: what has been written, the character in
  \<^verbatim>\<open>c\<close> and what is still to be read make up the input. A result is faithful to the
  input when its output is the input, or a prefix of it if the run failed.
\<close>

definition on_track :: "char list \<Rightarrow> int \<times> int \<times> state \<Rightarrow> bool" where
  "on_track input v \<longleftrightarrow>
     (case v of (c, left, s) \<Rightarrow>
        sound s \<and> ((c = EOF \<and> pending s = []) \<or> (0 \<le> c \<and> c < 256)) \<and>
        stdout s @ held c @ pending s = input)"

definition faithful :: "char list \<Rightarrow> state result \<Rightarrow> bool" where
  "faithful input r \<longleftrightarrow>
     (case r of Inl (d, s) \<Rightarrow> prefix (stdout s) input | Inr s \<Rightarrow> stdout s = input)"

lemma unget_fields [simp]:
  "stdout (unget c s) = stdout s" "stdin (unget c s) = stdin s" "preview (unget c s) = c"
  by (simp_all add: unget_def)

lemma track_get:
  assumes "sound s" and "stdout s @ pending s = input" and "get False s = (c', s')"
  shows "on_track input (c', left, s')"
proof (cases "pending s")
  case Nil
  then have st: "stdin s = []" by (rule pending_nil_stdin)
  show ?thesis
    using assms Nil st by (auto simp add: on_track_def get_sound)
next
  case (Cons x xs)
  then show ?thesis
    using assms sound_pending [OF assms(1)] by (auto simp add: on_track_def get_sound)
qed

lemma passes_whole:
  "passes s s' \<Longrightarrow> sound s \<Longrightarrow> stdout s @ pending s = input \<Longrightarrow>
     sound s' \<and> stdout s' @ pending s' = input \<and> prefix (stdout s') input"
  by (auto simp add: passes_def) (metis prefixI)

lemma faithful_passes:
  assumes "passes s (state_of r)" and "sound s" and "stdout s @ pending s = input"
  shows "case r of
           Inl e \<Rightarrow> faithful input (Inl e)
         | Inr s1 \<Rightarrow> sound s1 \<and> stdout s1 @ pending s1 = input"
  using passes_whole [OF assms]
  by (cases r) (auto simp add: faithful_def split: prod.splits)

definition step_ok :: "char list \<Rightarrow> (state result, int \<times> int \<times> state) flow \<Rightarrow> bool" where
  "step_ok input f \<longleftrightarrow>
     (case f of Exit r \<Rightarrow> faithful input r | Continue v \<Rightarrow> on_track input v)"

lemma step_ok_simps [simp]:
  "step_ok input (Exit r) = faithful input r" "step_ok input (Continue v) = on_track input v"
  by (simp_all add: step_ok_def)

lemma after_echo:
  assumes "passes s (state_of r)" and "sound s" and "stdout s @ pending s = input"
  shows "step_ok input
     (case r of
        Inl e \<Rightarrow> Exit (Inl e)
      | Inr s1 \<Rightarrow> (let (c', s2) = get False s1 in Continue (c', left, s2)))"
proof (cases r)
  case (Inl e)
  then show ?thesis
    using faithful_passes [OF assms] by simp
next
  case (Inr s1)
  then have "sound s1" "stdout s1 @ pending s1 = input"
    using faithful_passes [OF assms] by simp_all
  then show ?thesis
    using Inr track_get [of s1 input "fst (get False s1)" "snd (get False s1)" left]
    by (simp add: split_beta)
qed

lemma process_body_quote:
  assumes "on_track input (c, left, s)" and "is_quote c"
  shows "step_ok input (process_body tbl (c, left, s))"
proof -
  obtain q where q: "c = ch q" "q \<noteq> CHR 0x00"
    using assms(2) by (auto simp add: is_quote_def)
  have s: "sound (emit c s)" "stdout (emit c s) @ pending (emit c s) = input"
    using assms(1) q by (simp_all add: on_track_def)
  have p: "passes (emit c s) (state_of (string c False (emit c s)))" by (rule string_passes)
  show ?thesis
  proof (cases "string c False (emit c s)")
    case (Inl e)
    then show ?thesis
      using faithful_passes [OF p s] assms(2) q by (simp add: process_body_def)
  next
    case (Inr s1)
    then have "sound s1" "stdout s1 @ pending s1 = input"
      using faithful_passes [OF p s] by simp_all
    then show ?thesis
      using Inr assms(2) q by (simp add: process_body_def on_track_def)
  qed
qed

lemma process_body_other:
  assumes "on_track input (c, left, s)" and "c \<noteq> EOF" and "\<not> is_quote c" and "c \<noteq> ch CHR ''/''"
  shows "step_ok input (process_body tbl (c, left, s))"
proof -
  have "0 \<le> c" "c < 256" using assms(1,2) by (auto simp add: on_track_def)
  then have h: "held c = (if c = 0 then [] else [char_of c])" by (simp add: held_def)
  have s: "sound (emit c s)" "stdout (emit c s) @ pending (emit c s) = input"
    using assms(1) by (simp_all add: on_track_def)
  show ?thesis
    using assms(2,3,4)
      track_get [OF s, of "fst (get False (emit c s))" "snd (get False (emit c s))"]
    by (simp add: process_body_def split_beta Let_def)
qed

lemma EOF_neg [simp]: "\<not> 0 \<le> EOF" "EOF < 0" "EOF \<noteq> 0" "\<not> 0 < EOF"
  by (simp_all add: EOF_def)

lemma process_body_EOF:
  assumes "on_track input (EOF, left, s)"
  shows "step_ok input (process_body tbl (EOF, left, s))"
  using assms by (auto simp add: process_body_def on_track_def faithful_def)


lemma after_echo':
  assumes "passes s (state_of r)" and "sound s" and "stdout s @ pending s = input"
  shows "step_ok input
     (case r of
        Inl e \<Rightarrow> Exit (Inl e)
      | Inr s1 \<Rightarrow> Continue (fst (get False s1), left, snd (get False s1)))"
  using after_echo [OF assms, of left] by (cases r) (simp_all add: split_beta)

lemma process_body_bare_slash:
  assumes "on_track input (ch CHR ''/'', left, s)"
    and "take 1 (pending s) \<noteq> ''/''" and "take 1 (pending s) \<noteq> ''*''"
  shows "step_ok input (process_body tbl (ch CHR ''/'', left, s))"
proof -
  let ?S = "emit (ch CHR ''/'') (snd (peek s))"
  let ?r = "if pre_regexp left then regexp False ?S else Inr ?S"
  have s: "sound s" "stdout s @ ''/'' @ pending s = input"
    using assms(1) by (simp_all add: on_track_def)
  have S: "sound ?S" "stdout ?S @ pending ?S = input"
    using peek_passes [OF s(1)] s(2) by simp_all
  have "passes ?S (state_of ?r)"
    using regexp_passes [of ?S False] by simp
  then show ?thesis
    using after_echo' [OF _ S, of ?r "ch CHR ''/''"] process_body_slash [OF s(1) assms(2,3), of tbl left]
    by simp
qed

lemma process_body_line_comment:
  assumes "on_track input (ch CHR ''/'', left, s)" and "pending s = CHR ''/'' # ys"
  shows "step_ok input (process_body tbl (ch CHR ''/'', left, s))"
proof -
  let ?s1 = "emit (ch CHR ''/'') (s\<lparr>stdin := ys, preview := ch CHR ''/''\<rparr>)"
  have s: "sound s" "stdout s @ ''/'' @ pending s = input"
    using assms(1) by (simp_all add: on_track_def)
  have nul: "CHR 0x00 \<notin> set ys" using sound_pending [OF s(1)] assms(2) by simp
  have s1: "sound ?s1" "stdout ?s1 @ pending ?s1 = input"
    using s assms(2) nul by simp_all
  have "passes ?s1 (line_comment ?s1)" by (rule line_comment_passes)
  then have "sound (line_comment ?s1)"
      "stdout (line_comment ?s1) @ pending (line_comment ?s1) = input"
    using passes_whole [OF _ s1] by simp_all
  then have "on_track input (fst (get False (line_comment ?s1)), left,
      snd (get False (line_comment ?s1)))"
    by (intro track_get) simp_all
  then show ?thesis
    using s(1) assms(2)
    by (simp add: process_body_def is_quote_def peek_sound split_beta Let_def)
qed


lemma match_none: "cmd \<notin> fst ` set tbl \<Longrightarrow> match tbl cmd = EOF"
  unfolding match_def by (rule match_loop_none)

lemma process_body_comment:
  assumes "on_track input (ch CHR ''/'', left, s)" and "pending s = CHR ''*'' # ys"
    and "\<forall>w \<in> set (comment_cmds input). length w < MAX_CMD_LENGTH \<and> w \<notin> fst ` set tbl"
  shows "step_ok input (process_body tbl (ch CHR ''/'', left, s))"
proof -
  let ?w = "takeWhile alnum ys"
  let ?s2 = "s\<lparr>stdin := ys, preview := ch CHR ''*''\<rparr>"
  let ?s3 = "advance False (CHR ''*'') ys ?s2"
  have s: "sound s" "stdout s @ ''/'' @ pending s = input"
    using assms(1) by (simp_all add: on_track_def)
  have nul: "CHR 0x00 \<notin> set ys" using sound_pending [OF s(1)] assms(2) by simp
  have input: "input = stdout s @ ''/*'' @ ys" using s(2) assms(2) by simp
  have "?w \<in> set (comment_cmds input)"
    unfolding input by (rule comment_cmds_mem)
  then have w: "length ?w < MAX_CMD_LENGTH" "?w \<notin> fst ` set tbl"
    using assms(3) by auto
  have p1: "peek s = (ch CHR ''*'', ?s2)"
    using s(1) assms(2) by (simp add: peek_sound)
  have p2: "peek ?s2 = (ch CHR ''*'', ?s2)"
    using peek_again [OF s(1) assms(2)] .
  have g: "get False ?s2 = (ch CHR ''*'', ?s3)"
    using nul by (simp add: get_sound)
  obtain i cmd c' s4 where cl: "cmd_loop 0 [] (ch CHR ''/'') ?s3 = (i, cmd, c', s4)"
    by (cases "cmd_loop 0 [] (ch CHR ''/'') ?s3")
  have "i = 0 + length ?w \<and> cmd = [] @ ?w \<and> sound (unget c' s4) \<and>
      pending (unget c' s4) = dropWhile alnum ys \<and> stdout s4 = stdout ?s3 \<and>
      c' = (case dropWhile alnum ys of [] \<Rightarrow> EOF | x # _ \<Rightarrow> ch x)"
    using nul w(1) by (intro cmd_loop_takes [OF _ _ _ _ cl]) simp_all
  then have t: "i = 0 + length ?w" "cmd = [] @ ?w" "sound (unget c' s4)"
      "pending (unget c' s4) = dropWhile alnum ys" "stdout s4 = stdout ?s3"
    by blast+
  let ?s5 = "emits cmd (emits ''/*'' (unget c' s4))"
  have s5: "sound ?s5" "stdout ?s5 @ pending ?s5 = input"
    using t input by simp_all
  have m: "\<not> 0 \<le> (if i = 0 then - 1 else match tbl cmd)"
    using t w(2) by (simp add: match_none)
  have "passes ?s5 (state_of (comment_loop (c', ?s5)))"
    using comment_loop_passes [of "(c', ?s5)"] by simp
  then have "step_ok input
     (case comment_loop (c', ?s5) of
        Inl e \<Rightarrow> Exit (Inl e)
      | Inr s1 \<Rightarrow> (let (c'', s2) = get False s1 in Continue (c'', left, s2)))"
    using s5 by (rule after_echo)
  then show ?thesis
    using m by (simp add: process_body_def is_quote_def p1 p2 g cl Let_def)
qed


lemma process_body_tracks:
  assumes "on_track input v"
    and "\<forall>w \<in> set (comment_cmds input). length w < MAX_CMD_LENGTH \<and> w \<notin> fst ` set tbl"
  shows "step_ok input (process_body tbl v)"
proof -
  obtain c left s where v: "v = (c, left, s)" by (cases v)
  note t = assms(1) [unfolded v]
  consider (eof) "c = EOF" | (quote) "is_quote c"
    | (slash) "c = ch CHR ''/''" | (other) "c \<noteq> EOF" "\<not> is_quote c" "c \<noteq> ch CHR ''/''"
    by blast
  then show ?thesis
  proof cases
    case eof
    then show ?thesis using t v by (simp add: process_body_EOF)
  next
    case quote
    then show ?thesis using t v by (simp add: process_body_quote)
  next
    case other
    then show ?thesis using t v by (simp add: process_body_other)
  next
    case slash
    note t' = t [unfolded slash]
    consider (line) ys where "pending s = CHR ''/'' # ys"
      | (block) ys where "pending s = CHR ''*'' # ys"
      | (bare) "take 1 (pending s) \<noteq> ''/''" "take 1 (pending s) \<noteq> ''*''"
      by (cases "pending s") auto
    then show ?thesis
    proof cases
      case line
      then show ?thesis
        using process_body_line_comment [OF t' line] v slash by simp
    next
      case block
      then show ?thesis
        using process_body_comment [OF t' block assms(2)] v slash by simp
    next
      case bare
      then show ?thesis
        using process_body_bare_slash [OF t' bare] v slash by simp
    qed
  qed
qed

lemma process_loop_faithful:
  "on_track input v \<Longrightarrow>
     \<forall>w \<in> set (comment_cmds input). length w < MAX_CMD_LENGTH \<and> w \<notin> fst ` set tbl \<Longrightarrow>
     faithful input (process_loop tbl v)"
proof (induction tbl v rule: process_loop.induct)
  case (1 tbl v)
  have step: "step_ok input (process_body tbl v)"
    using "1.prems" by (rule process_body_tracks)
  show ?case
  proof (cases "process_body tbl v")
    case (Exit r)
    then show ?thesis
      using step by (simp add: process_loop_Exit)
  next
    case (Continue v')
    then have "on_track input v'" using step by simp
    then have "faithful input (process_loop tbl v')"
      using "1.IH" [OF Continue] "1.prems"(2) by simp
    then show ?thesis
      using Continue by (simp add: process_loop_Continue)
  qed
qed

text \<open>
  The copy is faithful as long as the input holds no NUL and no \<^verbatim>\<open>/*\<close> in it is
  followed by a declared command or by 80 or more letters, digits, underscores, dollars
  and periods: a run that ends without a fatal error has written the input, byte for
  byte, and a run that ends with a fatal error has written a prefix of the input.
\<close>

lemma pass_through:
  assumes "CHR 0x00 \<notin> set input"
    and "\<forall>w \<in> set (comment_cmds input). length w < MAX_CMD_LENGTH \<and> w \<notin> fst ` set tbl"
  shows "case outcome (process tbl (initial input)) of
           Inl (d, out) \<Rightarrow> prefix out input
         | Inr out \<Rightarrow> out = input"
proof -
  let ?s1 = "(initial input)\<lparr>line_nr := 1\<rparr>"
  have s1: "sound ?s1" "stdout ?s1 @ pending ?s1 = input"
    using assms(1) by (simp_all add: initial_def sound_def pending_def)
  have "on_track input (fst (get False ?s1), 0, snd (get False ?s1))"
    using s1 by (intro track_get) simp_all
  then have "faithful input (process tbl (initial input))"
    using process_loop_faithful [OF _ assms(2)] by (simp add: process_def split_beta Let_def)
  then show ?thesis
    by (cases "process tbl (initial input)") (auto simp add: faithful_def)
qed

lemma pass_through_example:
  \<open>case outcome (process [(''debug'', [])] (initial ''x = /*note*/ "a/*b" / 2; // debug'')) of
     Inl (d, out) \<Rightarrow> prefix out ''x = /*note*/ "a/*b" / 2; // debug''
   | Inr out \<Rightarrow> out = ''x = /*note*/ "a/*b" / 2; // debug''\<close>
proof -
  have c: \<open>comment_cmds ''x = /*note*/ "a/*b" / 2; // debug'' = [''note'', ''b'']\<close>
    by code_simp
  have h: \<open>\<forall>w \<in> set (comment_cmds ''x = /*note*/ "a/*b" / 2; // debug'').
      length w < MAX_CMD_LENGTH \<and> w \<notin> fst ` set [(''debug'', [])]\<close>
    unfolding c by (simp add: MAX_CMD_LENGTH_def)
  show ?thesis
    by (rule pass_through) (simp, rule h)
qed

text \<open>
  Claim C2 says that an input in which no comment begins with a declared command is
  written out byte for byte, no character twice. The loop of \<^verbatim>\<open>process\<close> that reads the
  command of a comment stops after \<^verbatim>\<open>MAX_CMD_LENGTH\<close> characters with the last of them
  still in \<^verbatim>\<open>c\<close>; \<^verbatim>\<open>unget(c)\<close> then puts that character back although it is in \<^verbatim>\<open>cmd\<close>
  already, and it is written twice, once with \<^verbatim>\<open>cmd\<close> and once by the loop that copies
  the rest of the comment. With nothing declared, a comment that begins with 80 letters
  comes out with 81, in a run that ends without an error; one that begins with 79
  letters is copied as it is.
\<close>

theorem long_command_written_twice:
  "outcome (main [] (''/*'' @ replicate 80 CHR ''a'' @ '' b*/'')) =
     Inr (''/*'' @ replicate 81 CHR ''a'' @ '' b*/'') \<and>
   outcome (main [] (''/*'' @ replicate 80 CHR ''a'' @ ''*/'')) =
     Inr (''/*'' @ replicate 81 CHR ''a'' @ ''*/'') \<and>
   outcome (main [] (''/*'' @ replicate 79 CHR ''a'' @ '' b*/'')) =
     Inr (''/*'' @ replicate 79 CHR ''a'' @ '' b*/'')"
  by code_simp

end
